theory Spec2Isabelle
  imports Main
begin

section \<open>Error values of the Go standard library\<close>

text \<open>
  The package stores and combines values of Go's interface type \<open>error\<close>; \<open>nil\<close> is
  \<open>None\<close> of \<open>error option\<close>. A task may return any error value. The model has the
  ones built by the standard constructors that the package and its tests use:
  \<open>errors.New\<close> (an \<open>*errorString\<close>, told apart by its address, the \<open>nat\<close>),
  \<open>fmt.Errorf\<close> with one \<open>%w\<close> verb (a \<open>*wrapError\<close> around its operand) and
  \<open>errors.Join\<close> (a \<open>*joinError\<close> around the list of its non-nil operands), which
  are pointers and so comparable with \<open>==\<close>; and \<open>Opaque\<close>, a value of an error type of
  the caller's own that is not comparable (a slice type, or a struct with a slice
  field, used by value) and has no \<open>Is\<close> and no \<open>Unwrap\<close> method, the \<open>nat\<close> telling
  such values apart.
\<close>

datatype error = ErrorString nat | WrapError string error | JoinError "error list" | Opaque nat

text \<open>\<open>reflectlite.TypeOf(target).Comparable()\<close>, as \<open>errors.Is\<close> asks it.\<close>

fun comparable :: "error \<Rightarrow> bool" where
  "comparable (Opaque a) = False"
| "comparable e = True"

text \<open>\<open>errors.Join(errs...)\<close>: nil when every operand is nil, else the non-nil operands.\<close>

definition errors_Join :: "error option list \<Rightarrow> error option" where
  "errors_Join errs =
     (let es = List.map_filter (\<lambda>e. e) errs
      in if es = [] then None else Some (JoinError es))"

text \<open>
  The tree walk of \<open>errors.Is\<close>: the error itself when the target is comparable and
  \<open>err == target\<close>, then what \<open>Unwrap() error\<close> gives, or any of what
  \<open>Unwrap() []error\<close> gives.
\<close>

fun is_go :: "error \<Rightarrow> error \<Rightarrow> bool" where
  "is_go (ErrorString a) target = (comparable target \<and> ErrorString a = target)"
| "is_go (WrapError m e) target =
     ((comparable target \<and> WrapError m e = target) \<or> is_go e target)"
| "is_go (JoinError es) target =
     ((comparable target \<and> JoinError es = target) \<or> (\<exists>e \<in> set es. is_go e target))"
| "is_go (Opaque a) target = (comparable target \<and> Opaque a = target)"

text \<open>\<open>errors.Is(err, target)\<close>: with a nil on either side it is \<open>err == target\<close>.\<close>

definition errors_Is :: "error option \<Rightarrow> error option \<Rightarrow> bool" where
  "errors_Is err target =
     (case err of
        None \<Rightarrow> target = None
      | Some e \<Rightarrow> (case target of None \<Rightarrow> False | Some t \<Rightarrow> is_go e t))"

section \<open>The Group and the derived context\<close>

text \<open>The constant \<open>Collect\<close> of the source is \<open>Collect_mode\<close> here.\<close>

datatype FailureMode = Collect_mode | FailFast

text \<open>
  A \<open>chan struct{}\<close>: its elements carry no data, so the buffer is its length.
  A capacity of 0 is an unbuffered channel.
\<close>

record chan =
  chan_cap :: nat
  chan_len :: nat

text \<open>
  The fields of \<open>Group\<close>. \<open>cancel\<close> tells whether \<open>g.cancel\<close> is non-nil (when it is,
  it is the cancel function of the derived context), \<open>errOnce\<close> is the done flag of the
  \<open>sync.Once\<close>, \<open>errLock\<close> tells whether the mutex is held, \<open>wg\<close> is the counter of the
  \<open>sync.WaitGroup\<close>, and \<open>sem\<close> is \<open>None\<close> for the nil channel.
\<close>

record Group =
  cancel :: bool
  err :: "error option"
  errOnce :: bool
  errLock :: bool
  wg :: int
  sem :: "chan option"
  failureMode :: FailureMode

text \<open>
  The context made by \<open>context.WithCancel(ctx)\<close>: it is done when its cancel function
  has been called or when its parent is done.
\<close>

record cancelCtx =
  parent_done :: bool
  cancelled :: bool

definition Done :: "cancelCtx \<Rightarrow> bool" where
  "Done c = (parent_done c \<or> cancelled c)"

datatype panic = MakechanSizeOutOfRange | NegativeWaitGroupCounter | UnlockOfUnlockedMutex

text \<open>
  Where each goroutine stands. A caller of \<open>Go\<close> is in \<open>add\<close> at the send on \<open>g.sem\<close>
  (\<open>AddSem\<close>), then at \<open>g.wg.Add(1)\<close> (\<open>AddWg\<close>), then at the \<open>go\<close> statement
  (\<open>GoStmt\<close>), where the caller returns and the entry goes on as the new goroutine:
  in \<open>fn()\<close> (\<open>Running\<close>), at \<open>if err != nil\<close> with the value \<open>fn\<close> returned
  (\<open>Returned\<close>), at \<open>g.errLock.Lock()\<close> (\<open>Lock\<close>), holding the lock at
  \<open>if g.failureMode == FailFast\<close> (\<open>Critical\<close>), at the deferred \<open>Unlock\<close>, then in the
  deferred \<open>g.done()\<close> at the receive from \<open>g.sem\<close> (\<open>DoneSem\<close>) and at \<open>g.wg.Done()\<close>
  (\<open>DoneWg\<close>), and gone (\<open>Exited\<close>). A caller of \<open>Wait\<close> is at \<open>g.wg.Wait()\<close> (\<open>WaitWg\<close>),
  at \<open>g.Cancel()\<close> (\<open>WaitCancel\<close>), at \<open>return g.err\<close> (\<open>WaitReturn\<close>), and has returned
  a value (\<open>Waited\<close>).
\<close>

datatype pc =
    AddSem | AddWg | GoStmt
  | Running | Returned "error option" | Lock error | Critical error | Unlock
  | DoneSem | DoneWg | Exited
  | WaitWg | WaitCancel | WaitReturn | Waited "error option"

record system =
  grp :: Group
  ctx :: cancelCtx
  procs :: "pc list"

datatype 'a outcome = Next 'a | Blocked | Panics panic | NoSuchStep

subsection \<open>Construction\<close>

type_synonym Option = "Group \<Rightarrow> panic + Group"

text \<open>\<open>make(chan struct{}, n)\<close> panics on a negative size.\<close>

definition WithLimit :: "int \<Rightarrow> Option" where
  "WithLimit n g =
     (if n < 0 then Inl MakechanSizeOutOfRange
      else Inr (g\<lparr>sem := Some \<lparr>chan_cap = nat n, chan_len = 0\<rparr>\<rparr>))"

fun apply_opts :: "Option list \<Rightarrow> Group \<Rightarrow> panic + Group" where
  "apply_opts [] g = Inr g"
| "apply_opts (opt # opts) g =
     (case opt g of Inl p \<Rightarrow> Inl p | Inr g' \<Rightarrow> apply_opts opts g')"

text \<open>
  \<open>New(ctx, mode, opts...)\<close>; the first argument tells whether the parent context is
  already done. The result packs the derived context and the Group, with no goroutine yet.
\<close>

definition New :: "bool \<Rightarrow> FailureMode \<Rightarrow> Option list \<Rightarrow> panic + system" where
  "New parent mode opts =
     (case apply_opts opts
             \<lparr>cancel = True, err = None, errOnce = False, errLock = False, wg = 0,
              sem = None, failureMode = mode\<rparr> of
        Inl p \<Rightarrow> Inl p
      | Inr g \<Rightarrow>
          Inr \<lparr>grp = g, ctx = \<lparr>parent_done = parent, cancelled = False\<rparr>, procs = []\<rparr>)"

subsection \<open>The methods, step by step\<close>

text \<open>\<open>Cancel\<close>: calls \<open>g.cancel\<close> when it is non-nil.\<close>

definition Cancel :: "system \<Rightarrow> system" where
  "Cancel s = (if cancel (grp s) then s\<lparr>ctx := (ctx s)\<lparr>cancelled := True\<rparr>\<rparr> else s)"

text \<open>\<open>Len\<close>: \<open>len(g.sem)\<close>, which is 0 for the nil channel.\<close>

definition Len :: "Group \<Rightarrow> nat" where
  "Len g = (case sem g of None \<Rightarrow> 0 | Some c \<Rightarrow> chan_len c)"

definition pc_at :: "system \<Rightarrow> nat \<Rightarrow> pc option" where
  "pc_at s i = (if i < length (procs s) then Some (procs s ! i) else None)"

definition goto :: "nat \<Rightarrow> pc \<Rightarrow> system \<Rightarrow> system" where
  "goto i p s = s\<lparr>procs := (procs s)[i := p]\<rparr>"

text \<open>
  The body run under \<open>errLock\<close> when the task returned the non-nil \<open>e\<close>: under
  \<open>FailFast\<close> the \<open>errOnce.Do\<close> with its function, else the join.
\<close>

definition record_error :: "error \<Rightarrow> system \<Rightarrow> system" where
  "record_error e s =
     (if failureMode (grp s) = FailFast then
        (if errOnce (grp s) then s
         else (let s1 = Cancel (s\<lparr>grp := (grp s)\<lparr>err := Some e\<rparr>\<rparr>)
               in s1\<lparr>grp := (grp s1)\<lparr>errOnce := True\<rparr>\<rparr>))
      else s\<lparr>grp := (grp s)\<lparr>err := errors_Join [err (grp s), Some e]\<rparr>\<rparr>)"

text \<open>
  One step of goroutine \<open>i\<close> standing at the given place. A send on a buffered channel
  goes through when the buffer is not full and a receive when it is not empty; on an
  unbuffered channel neither goes through alone (see \<open>Handoff\<close> below). \<open>fn()\<close> returns
  by the event \<open>Return\<close>, not by a step of its own; where \<open>workgroup.go\<close> calls
  \<open>retry.Do(fn, ...)\<close> in its place, \<open>Return\<close> is the return of that call. What a
  goroutine does between \<open>Lock\<close> and \<open>Unlock\<close> is one step: no other goroutine writes
  the error slot or the latch without the lock. The \<open>sync.WaitGroup\<close> is its counter:
  \<open>Done\<close> panics when the counter would get negative, \<open>Wait\<close> is blocked while it is
  not zero.
\<close>

fun thread_step :: "nat \<Rightarrow> pc \<Rightarrow> system \<Rightarrow> system outcome" where
  "thread_step i AddSem s =
     (case sem (grp s) of
        None \<Rightarrow> Next (goto i AddWg s)
      | Some c \<Rightarrow>
          if chan_len c < chan_cap c
          then Next (goto i AddWg (s\<lparr>grp := (grp s)\<lparr>sem := Some (c\<lparr>chan_len := chan_len c + 1\<rparr>)\<rparr>\<rparr>))
          else Blocked)"
| "thread_step i AddWg s = Next (goto i GoStmt (s\<lparr>grp := (grp s)\<lparr>wg := wg (grp s) + 1\<rparr>\<rparr>))"
| "thread_step i GoStmt s = Next (goto i Running s)"
| "thread_step i Running s = NoSuchStep"
| "thread_step i (Returned None) s = Next (goto i DoneSem s)"
| "thread_step i (Returned (Some e)) s = Next (goto i (Lock e) s)"
| "thread_step i (Lock e) s =
     (if errLock (grp s) then Blocked
      else Next (goto i (Critical e) (s\<lparr>grp := (grp s)\<lparr>errLock := True\<rparr>\<rparr>)))"
| "thread_step i (Critical e) s = Next (goto i Unlock (record_error e s))"
| "thread_step i Unlock s =
     (if errLock (grp s)
      then Next (goto i DoneSem (s\<lparr>grp := (grp s)\<lparr>errLock := False\<rparr>\<rparr>))
      else Panics UnlockOfUnlockedMutex)"
| "thread_step i DoneSem s =
     (case sem (grp s) of
        None \<Rightarrow> Next (goto i DoneWg s)
      | Some c \<Rightarrow>
          if 0 < chan_len c
          then Next (goto i DoneWg (s\<lparr>grp := (grp s)\<lparr>sem := Some (c\<lparr>chan_len := chan_len c - 1\<rparr>)\<rparr>\<rparr>))
          else Blocked)"
| "thread_step i DoneWg s =
     (if wg (grp s) - 1 < 0 then Panics NegativeWaitGroupCounter
      else Next (goto i Exited (s\<lparr>grp := (grp s)\<lparr>wg := wg (grp s) - 1\<rparr>\<rparr>)))"
| "thread_step i Exited s = NoSuchStep"
| "thread_step i WaitWg s = (if wg (grp s) = 0 then Next (goto i WaitCancel s) else Blocked)"
| "thread_step i WaitCancel s = Next (goto i WaitReturn (Cancel s))"
| "thread_step i WaitReturn s = Next (goto i (Waited (err (grp s))) s)"
| "thread_step i (Waited r) s = NoSuchStep"

text \<open>
  What can happen next: a goroutine calls \<open>Go\<close>, \<open>Wait\<close> or \<open>Cancel\<close>, the parent context
  is cancelled, goroutine \<open>i\<close> takes its step, the \<open>fn()\<close> of goroutine \<open>i\<close> returns \<open>r\<close>,
  or a sender \<open>i\<close> and a receiver \<open>j\<close> meet on the unbuffered \<open>g.sem\<close>.
\<close>

datatype event =
    CallGo | CallWait | CallCancel | ParentCancel
  | Step nat | Return nat "error option" | Handoff nat nat

fun exec :: "event \<Rightarrow> system \<Rightarrow> system outcome" where
  "exec CallGo s = Next (s\<lparr>procs := procs s @ [AddSem]\<rparr>)"
| "exec CallWait s = Next (s\<lparr>procs := procs s @ [WaitWg]\<rparr>)"
| "exec CallCancel s = Next (Cancel s)"
| "exec ParentCancel s = Next (s\<lparr>ctx := (ctx s)\<lparr>parent_done := True\<rparr>\<rparr>)"
| "exec (Step i) s =
     (case pc_at s i of None \<Rightarrow> NoSuchStep | Some p \<Rightarrow> thread_step i p s)"
| "exec (Return i r) s =
     (if pc_at s i = Some Running then Next (goto i (Returned r) s) else NoSuchStep)"
| "exec (Handoff i j) s =
     (if pc_at s i = Some AddSem \<and> pc_at s j = Some DoneSem
      then (case sem (grp s) of
              None \<Rightarrow> NoSuchStep
            | Some c \<Rightarrow>
                if chan_cap c = 0 then Next (goto j DoneWg (goto i AddWg s))
                else NoSuchStep)
      else NoSuchStep)"

fun run :: "event list \<Rightarrow> system \<Rightarrow> system outcome" where
  "run [] s = Next s"
| "run (ev # evs) s =
     (case exec ev s of
        Next s' \<Rightarrow> run evs s'
      | Blocked \<Rightarrow> Blocked
      | Panics p \<Rightarrow> Panics p
      | NoSuchStep \<Rightarrow> NoSuchStep)"

text \<open>The non-nil errors that tasks returned along a run, in the order of their return.\<close>

fun returned_errors :: "event list \<Rightarrow> error list" where
  "returned_errors [] = []"
| "returned_errors (Return i (Some e) # evs) = e # returned_errors evs"
| "returned_errors (ev # evs) = returned_errors evs"

text \<open>
  The goroutines that have sent on \<open>g.sem\<close> and not yet received from it (\<open>holds\<close>),
  and the ones that have called \<open>g.wg.Add(1)\<close> and not yet \<open>g.wg.Done()\<close> (\<open>counted\<close>).
\<close>

fun holds :: "pc \<Rightarrow> bool" where
  "holds AddWg = True"
| "holds GoStmt = True"
| "holds Running = True"
| "holds (Returned r) = True"
| "holds (Lock e) = True"
| "holds (Critical e) = True"
| "holds Unlock = True"
| "holds DoneSem = True"
| "holds p = False"

fun counted :: "pc \<Rightarrow> bool" where
  "counted GoStmt = True"
| "counted Running = True"
| "counted (Returned r) = True"
| "counted (Lock e) = True"
| "counted (Critical e) = True"
| "counted Unlock = True"
| "counted DoneSem = True"
| "counted DoneWg = True"
| "counted p = False"

definition holding :: "system \<Rightarrow> nat" where
  "holding s = length (filter holds (procs s))"

definition outstanding :: "system \<Rightarrow> nat" where
  "outstanding s = length (filter counted (procs s))"

text \<open>The tasks whose \<open>fn()\<close> is executing.\<close>

definition running :: "system \<Rightarrow> nat" where
  "running s = length (filter (\<lambda>p. p = Running) (procs s))"

text \<open>
  The places of a goroutine that has not got past the send in \<open>add\<close>: a caller of \<open>Go\<close>
  still at the send, or a caller of \<open>Wait\<close>.
\<close>

fun not_started :: "pc \<Rightarrow> bool" where
  "not_started AddSem = True"
| "not_started WaitWg = True"
| "not_started WaitCancel = True"
| "not_started WaitReturn = True"
| "not_started (Waited r) = True"
| "not_started p = False"

text \<open>The places of a caller of \<open>Wait\<close> that has not returned an error.\<close>

fun waiter_nil :: "pc \<Rightarrow> bool" where
  "waiter_nil WaitWg = True"
| "waiter_nil WaitCancel = True"
| "waiter_nil WaitReturn = True"
| "waiter_nil (Waited r) = (r = None)"
| "waiter_nil p = False"

text \<open>
  The places of a goroutine that holds \<open>errLock\<close> (\<open>locked\<close>), and the places of a task
  goroutine after its \<open>fn()\<close> has returned, the wait for the lock left out (\<open>finishing\<close>).
\<close>

fun locked :: "pc \<Rightarrow> bool" where
  "locked (Critical e) = True"
| "locked Unlock = True"
| "locked p = False"

fun finishing :: "pc \<Rightarrow> bool" where
  "finishing (Returned r) = True"
| "finishing (Critical e) = True"
| "finishing Unlock = True"
| "finishing DoneSem = True"
| "finishing DoneWg = True"
| "finishing p = False"

subsection \<open>Invariants\<close>

text \<open>The lock is held exactly when one goroutine is between \<open>Lock\<close> and \<open>Unlock\<close>.\<close>

definition lock_inv :: "system \<Rightarrow> bool" where
  "lock_inv s = (length (filter locked (procs s)) = (if errLock (grp s) then 1 else 0))"


text \<open>The units in the buffer of \<open>g.sem\<close> are the goroutines between send and receive.\<close>

definition sem_inv :: "system \<Rightarrow> bool" where
  "sem_inv s =
     (case sem (grp s) of
        None \<Rightarrow> True
      | Some c \<Rightarrow> chan_len c = holding s \<and> chan_len c \<le> chan_cap c)"

text \<open>The error a goroutine has got from \<open>fn()\<close> and not yet handled under the lock.\<close>

fun carries :: "pc \<Rightarrow> error option" where
  "carries (Returned r) = r"
| "carries (Lock e) = Some e"
| "carries (Critical e) = Some e"
| "carries p = None"

definition pending :: "system \<Rightarrow> error \<Rightarrow> bool" where
  "pending s e = (\<exists>p \<in> set (procs s). carries p = Some e)"

section \<open>Basic facts about the steps\<close>

lemma goto_simps [simp]:
  "grp (goto i p s) = grp s" "ctx (goto i p s) = ctx s" "procs (goto i p s) = (procs s)[i := p]"
  by (simp_all add: goto_def)

lemma Cancel_simps [simp]:
  "grp (Cancel s) = grp s" "procs (Cancel s) = procs s"
  "parent_done (ctx (Cancel s)) = parent_done (ctx s)"
  "cancelled (ctx (Cancel s)) = (cancel (grp s) \<or> cancelled (ctx s))"
  by (simp_all add: Cancel_def)

lemma record_error_simps [simp]:
  "procs (record_error e s) = procs s"
  "parent_done (ctx (record_error e s)) = parent_done (ctx s)"
  "cancel (grp (record_error e s)) = cancel (grp s)"
  "errLock (grp (record_error e s)) = errLock (grp s)"
  "wg (grp (record_error e s)) = wg (grp s)"
  "sem (grp (record_error e s)) = sem (grp s)"
  "failureMode (grp (record_error e s)) = failureMode (grp s)"
  "cancelled (ctx (record_error e s)) =
     (cancelled (ctx s) \<or> (failureMode (grp s) = FailFast \<and> \<not> errOnce (grp s) \<and> cancel (grp s)))"
  by (auto simp: record_error_def Let_def)

lemma pc_at_Some: "pc_at s i = Some p \<longleftrightarrow> i < length (procs s) \<and> procs s ! i = p"
  by (auto simp: pc_at_def)

lemma exec_cases [consumes 1, case_names CallGo CallWait CallCancel ParentCancel Return Handoff
    AddSemNil AddSem AddWg GoStmt ReturnedNil ReturnedErr Lock Critical Unlock DoneSemNil DoneSem
    DoneWg WaitWg WaitCancel WaitReturn]:
  assumes "exec ev s = Next s'"
  obtains
    "ev = CallGo" "s' = s\<lparr>procs := procs s @ [AddSem]\<rparr>"
  | "ev = CallWait" "s' = s\<lparr>procs := procs s @ [WaitWg]\<rparr>"
  | "ev = CallCancel" "s' = Cancel s"
  | "ev = ParentCancel" "s' = s\<lparr>ctx := (ctx s)\<lparr>parent_done := True\<rparr>\<rparr>"
  | i r where "ev = Return i r" "i < length (procs s)" "procs s ! i = Running"
      "s' = goto i (Returned r) s"
  | i j c where "ev = Handoff i j" "i < length (procs s)" "j < length (procs s)"
      "procs s ! i = AddSem" "procs s ! j = DoneSem" "sem (grp s) = Some c" "chan_cap c = 0"
      "s' = goto j DoneWg (goto i AddWg s)"
  | i where "ev = Step i" "i < length (procs s)" "procs s ! i = AddSem" "sem (grp s) = None"
      "s' = goto i AddWg s"
  | i c where "ev = Step i" "i < length (procs s)" "procs s ! i = AddSem" "sem (grp s) = Some c"
      "chan_len c < chan_cap c"
      "s' = goto i AddWg (s\<lparr>grp := (grp s)\<lparr>sem := Some (c\<lparr>chan_len := chan_len c + 1\<rparr>)\<rparr>\<rparr>)"
  | i where "ev = Step i" "i < length (procs s)" "procs s ! i = AddWg"
      "s' = goto i GoStmt (s\<lparr>grp := (grp s)\<lparr>wg := wg (grp s) + 1\<rparr>\<rparr>)"
  | i where "ev = Step i" "i < length (procs s)" "procs s ! i = GoStmt" "s' = goto i Running s"
  | i where "ev = Step i" "i < length (procs s)" "procs s ! i = Returned None"
      "s' = goto i DoneSem s"
  | i e where "ev = Step i" "i < length (procs s)" "procs s ! i = Returned (Some e)"
      "s' = goto i (Lock e) s"
  | i e where "ev = Step i" "i < length (procs s)" "procs s ! i = Lock e" "\<not> errLock (grp s)"
      "s' = goto i (Critical e) (s\<lparr>grp := (grp s)\<lparr>errLock := True\<rparr>\<rparr>)"
  | i e where "ev = Step i" "i < length (procs s)" "procs s ! i = Critical e"
      "s' = goto i Unlock (record_error e s)"
  | i where "ev = Step i" "i < length (procs s)" "procs s ! i = Unlock" "errLock (grp s)"
      "s' = goto i DoneSem (s\<lparr>grp := (grp s)\<lparr>errLock := False\<rparr>\<rparr>)"
  | i where "ev = Step i" "i < length (procs s)" "procs s ! i = DoneSem" "sem (grp s) = None"
      "s' = goto i DoneWg s"
  | i c where "ev = Step i" "i < length (procs s)" "procs s ! i = DoneSem" "sem (grp s) = Some c"
      "0 < chan_len c"
      "s' = goto i DoneWg (s\<lparr>grp := (grp s)\<lparr>sem := Some (c\<lparr>chan_len := chan_len c - 1\<rparr>)\<rparr>\<rparr>)"
  | i where "ev = Step i" "i < length (procs s)" "procs s ! i = DoneWg" "1 \<le> wg (grp s)"
      "s' = goto i Exited (s\<lparr>grp := (grp s)\<lparr>wg := wg (grp s) - 1\<rparr>\<rparr>)"
  | i where "ev = Step i" "i < length (procs s)" "procs s ! i = WaitWg" "wg (grp s) = 0"
      "s' = goto i WaitCancel s"
  | i where "ev = Step i" "i < length (procs s)" "procs s ! i = WaitCancel"
      "s' = goto i WaitReturn (Cancel s)"
  | i where "ev = Step i" "i < length (procs s)" "procs s ! i = WaitReturn"
      "s' = goto i (Waited (err (grp s))) s"
proof (cases ev)
  case CallGo
  with assms show ?thesis by (intro that(1)) auto
next
  case CallWait
  with assms show ?thesis by (intro that(2)) auto
next
  case CallCancel
  with assms show ?thesis by (intro that(3)) auto
next
  case ParentCancel
  with assms show ?thesis by (intro that(4)) auto
next
  case (Return i r)
  with assms show ?thesis by (intro that(5) [of i r]) (auto simp: pc_at_Some split: if_splits)
next
  case (Handoff i j)
  with assms obtain c where "sem (grp s) = Some c"
    by (auto split: if_splits option.splits)
  with Handoff assms show ?thesis
    by (intro that(6) [of i j c]) (auto simp: pc_at_Some split: if_splits)
next
  case (Step i)
  with assms obtain p where p: "i < length (procs s)" "procs s ! i = p" "thread_step i p s = Next s'"
    by (auto simp: pc_at_def split: if_splits)
  show ?thesis
  proof (cases p)
    case AddSem
    show ?thesis
    proof (cases "sem (grp s)")
      case None
      with p Step AddSem show ?thesis by (intro that(7) [of i]) auto
    next
      case (Some c)
      with p Step AddSem show ?thesis by (intro that(8) [of i c]) (auto split: if_splits)
    qed
  next
    case AddWg
    with p Step show ?thesis by (intro that(9) [of i]) auto
  next
    case GoStmt
    with p Step show ?thesis by (intro that(10) [of i]) auto
  next
    case Running
    with p show ?thesis by simp
  next
    case (Returned r)
    show ?thesis
    proof (cases r)
      case None
      with p Step Returned show ?thesis by (intro that(11) [of i]) auto
    next
      case (Some e)
      with p Step Returned show ?thesis by (intro that(12) [of i e]) auto
    qed
  next
    case (Lock e)
    with p Step show ?thesis by (intro that(13) [of i e]) (auto split: if_splits)
  next
    case (Critical e)
    with p Step show ?thesis by (intro that(14) [of i e]) auto
  next
    case Unlock
    with p Step show ?thesis by (intro that(15) [of i]) (auto split: if_splits)
  next
    case DoneSem
    show ?thesis
    proof (cases "sem (grp s)")
      case None
      with p Step DoneSem show ?thesis by (intro that(16) [of i]) auto
    next
      case (Some c)
      with p Step DoneSem show ?thesis by (intro that(17) [of i c]) (auto split: if_splits)
    qed
  next
    case DoneWg
    with p Step show ?thesis by (intro that(18) [of i]) (auto split: if_splits)
  next
    case Exited
    with p show ?thesis by simp
  next
    case WaitWg
    with p Step show ?thesis by (intro that(19) [of i]) (auto split: if_splits)
  next
    case WaitCancel
    with p Step show ?thesis by (intro that(20) [of i]) auto
  next
    case WaitReturn
    with p Step show ?thesis by (intro that(21) [of i]) auto
  next
    case (Waited r)
    with p show ?thesis by simp
  qed
qed

lemma Cancel_Cancel: "Cancel (Cancel s) = Cancel s"
  by (simp add: Cancel_def)

lemma run_append:
  "run (xs @ ys) s = (case run xs s of Next s' \<Rightarrow> run ys s' | Blocked \<Rightarrow> Blocked
     | Panics p \<Rightarrow> Panics p | NoSuchStep \<Rightarrow> NoSuchStep)"
  by (induction xs arbitrary: s) (auto split: outcome.splits)

lemma run_Cons_Next:
  "run (ev # evs) s = Next s' \<longleftrightarrow> (\<exists>s1. exec ev s = Next s1 \<and> run evs s1 = Next s')"
  by (auto split: outcome.splits)

lemma run_snoc_Next:
  "run (evs @ [ev]) s = Next s' \<longleftrightarrow> (\<exists>s1. run evs s = Next s1 \<and> exec ev s1 = Next s')"
  by (auto simp: run_append split: outcome.splits)

lemma run_invariant:
  assumes "run evs s = Next s'" and "P s"
    and "\<And>ev s s'. P s \<Longrightarrow> exec ev s = Next s' \<Longrightarrow> P s'"
  shows "P s'"
  using assms(1,2)
proof (induction evs arbitrary: s)
  case Nil
  then show ?case by simp
next
  case (Cons ev evs)
  from Cons.prems(1) obtain s1 where "exec ev s = Next s1" "run evs s1 = Next s'"
    by (auto split: outcome.splits)
  with Cons.IH [of s1] assms(3) [OF Cons.prems(2)] show ?case by blast
qed

lemma exec_fixed_fields:
  assumes "exec ev s = Next s'"
  shows "cancel (grp s') = cancel (grp s) \<and> failureMode (grp s') = failureMode (grp s)"
  using assms by (cases rule: exec_cases) simp_all

lemma exec_cancelled_mono:
  assumes "exec ev s = Next s'"
  shows "(cancelled (ctx s) \<longrightarrow> cancelled (ctx s')) \<and> (parent_done (ctx s) \<longrightarrow> parent_done (ctx s'))"
  using assms by (cases rule: exec_cases) simp_all

lemma run_fixed_fields:
  "run evs s = Next s' \<Longrightarrow> cancel (grp s') = cancel (grp s) \<and> failureMode (grp s') = failureMode (grp s)"
  by (erule run_invariant) (auto dest: exec_fixed_fields)

lemma run_cancelled_mono:
  "run evs s = Next s' \<Longrightarrow> cancelled (ctx s) \<Longrightarrow> cancelled (ctx s')"
  by (erule run_invariant) (auto dest: exec_cancelled_mono)

lemma run_parent_done_mono:
  "run evs s = Next s' \<Longrightarrow> parent_done (ctx s) \<Longrightarrow> parent_done (ctx s')"
  by (erule run_invariant) (auto dest: exec_cancelled_mono)

lemma Cancel_cancelled: "cancelled (ctx s) \<Longrightarrow> Cancel s = s"
  by (simp add: Cancel_def)

lemma run_replicate_Cancel: "run (replicate (Suc n) CallCancel) s = Next (Cancel s)"
  by (induction n) (simp_all add: Cancel_Cancel)

lemma apply_opts_WithLimit:
  "apply_opts (map WithLimit ks) g = Inr g' \<Longrightarrow>
     (\<forall>k \<in> set ks. 0 \<le> k) \<and>
     g' = (if ks = [] then g else g\<lparr>sem := Some \<lparr>chan_cap = nat (last ks), chan_len = 0\<rparr>\<rparr>)"
proof (induction ks arbitrary: g)
  case Nil
  then show ?case by simp
next
  case (Cons k ks)
  from Cons.prems obtain g1 where g1: "WithLimit k g = Inr g1"
    and r: "apply_opts (map WithLimit ks) g1 = Inr g'"
    by (auto split: sum.splits)
  from g1 have k: "0 \<le> k" "g1 = g\<lparr>sem := Some \<lparr>chan_cap = nat k, chan_len = 0\<rparr>\<rparr>"
    by (auto simp: WithLimit_def split: if_splits)
  from Cons.IH [OF r] k show ?case by auto
qed

lemma New_WithLimit:
  assumes "New parent mode (map WithLimit ks) = Inr s0"
  shows "procs s0 = []" "ctx s0 = \<lparr>parent_done = parent, cancelled = False\<rparr>"
    "cancel (grp s0)" "err (grp s0) = None" "\<not> errOnce (grp s0)" "\<not> errLock (grp s0)"
    "wg (grp s0) = 0" "failureMode (grp s0) = mode"
    "sem (grp s0) = (if ks = [] then None else Some \<lparr>chan_cap = nat (last ks), chan_len = 0\<rparr>)"
    "\<forall>k \<in> set ks. 0 \<le> k"
  using assms by (auto simp: New_def split: sum.splits if_splits dest!: apply_opts_WithLimit)

section \<open>The admission gate and the two counters\<close>

lemma filter_update_count:
  "i < length xs \<Longrightarrow>
     length (filter P (xs[i := v])) =
     (if P (xs ! i) then (if P v then length (filter P xs) else length (filter P xs) - 1)
      else (if P v then Suc (length (filter P xs)) else length (filter P xs)))"
proof (induction xs arbitrary: i)
  case Nil
  then show ?case by simp
next
  case (Cons x xs)
  show ?case
  proof (cases i)
    case 0
    then show ?thesis by simp
  next
    case (Suc j)
    with Cons.prems have j: "j < length xs" by simp
    have pos: "P (xs ! j) \<Longrightarrow> 0 < length (filter P xs)"
      using j by (metis filter_empty_conv length_greater_0_conv nth_mem)
    from Cons.IH [OF j] Suc pos show ?thesis by auto
  qed
qed

lemma filter_nth_pos: "i < length xs \<Longrightarrow> P (xs ! i) \<Longrightarrow> 0 < length (filter P xs)"
  by (metis filter_empty_conv length_greater_0_conv nth_mem)

lemma holding_goto:
  "i < length (procs s) \<Longrightarrow>
     holding (goto i p s) =
     (if holds (procs s ! i) then (if holds p then holding s else holding s - 1)
      else (if holds p then Suc (holding s) else holding s))"
  by (simp add: holding_def filter_update_count)

lemma holding_pos: "i < length (procs s) \<Longrightarrow> holds (procs s ! i) \<Longrightarrow> 0 < holding s"
  unfolding holding_def by (rule filter_nth_pos)

lemma holding_simps [simp]:
  "holding (s\<lparr>grp := g\<rparr>) = holding s" "holding (s\<lparr>ctx := c\<rparr>) = holding s"
  "holding (Cancel s) = holding s" "holding (record_error e s) = holding s"
  "holding (s\<lparr>procs := procs s @ [p]\<rparr>) = holding s + (if holds p then 1 else 0)"
  by (simp_all add: holding_def)

lemma exec_sem_inv:
  assumes "exec ev s = Next s'" and "sem_inv s"
  shows "sem_inv s'"
  using assms
proof (cases rule: exec_cases)
  case (Handoff i j c)
  then have ij: "i \<noteq> j" by auto
  with Handoff have "holding s' = holding s"
    by (simp add: holding_goto)
  with Handoff assms(2) show ?thesis by (simp add: sem_inv_def)
qed (auto simp: sem_inv_def holding_goto split: option.splits)

lemma exec_chan_cap:
  assumes "exec ev s = Next s'"
  shows "map_option chan_cap (sem (grp s')) = map_option chan_cap (sem (grp s))"
  using assms by (cases rule: exec_cases) simp_all

lemma run_sem_inv: "run evs s = Next s' \<Longrightarrow> sem_inv s \<Longrightarrow> sem_inv s'"
  by (erule run_invariant) (auto dest: exec_sem_inv)

lemma run_chan_cap:
  "run evs s = Next s' \<Longrightarrow> map_option chan_cap (sem (grp s')) = map_option chan_cap (sem (grp s))"
  by (erule run_invariant [where P = "\<lambda>t. map_option chan_cap (sem (grp t)) = map_option chan_cap (sem (grp s))"])
     (auto dest: exec_chan_cap)

lemma New_sem_inv: "New parent mode (map WithLimit ks) = Inr s0 \<Longrightarrow> sem_inv s0"
  by (frule New_WithLimit(1), frule New_WithLimit(9)) (simp add: sem_inv_def holding_def)

lemma limited_run:
  assumes "New parent mode (map WithLimit (ks @ [k])) = Inr s0" and "run evs s0 = Next s"
  shows "\<exists>c. sem (grp s) = Some c \<and> int (chan_cap c) = k \<and> chan_len c = holding s
            \<and> chan_len c \<le> chan_cap c"
proof -
  from New_WithLimit(9,10) [OF assms(1)]
  have "sem (grp s0) = Some \<lparr>chan_cap = nat k, chan_len = 0\<rparr>" "0 \<le> k" by simp_all
  with run_chan_cap [OF assms(2)] obtain c where c: "sem (grp s) = Some c" "int (chan_cap c) = k"
    by auto
  from run_sem_inv [OF assms(2) New_sem_inv [OF assms(1)]] c show ?thesis
    by (simp add: sem_inv_def)
qed

lemma unlimited_run:
  assumes "New parent mode (map WithLimit []) = Inr s0" and "run evs s0 = Next s"
  shows "sem (grp s) = None"
  using New_WithLimit(9) [OF assms(1)] run_chan_cap [OF assms(2)] by simp

lemma spawn_one:
  assumes "sem (grp s) = None"
  shows "\<exists>s'. run [CallGo, Step (length (procs s)), Step (length (procs s)), Step (length (procs s))] s = Next s'
     \<and> sem (grp s') = None \<and> procs s' = procs s @ [Running]"
  using assms by (simp add: pc_at_def)

lemma spawn_many:
  "sem (grp s) = None \<Longrightarrow>
     \<exists>evs s'. run evs s = Next s' \<and> sem (grp s') = None \<and> procs s' = procs s @ replicate n Running"
proof (induction n)
  case 0
  have "run [] s = Next s" by simp
  with 0 show ?case by (metis append_Nil2 replicate_0)
next
  case (Suc n)
  then obtain evs s1 where a: "run evs s = Next s1" "sem (grp s1) = None"
    "procs s1 = procs s @ replicate n Running" by blast
  from spawn_one [OF a(2)] obtain evs' s2 where b: "run evs' s1 = Next s2" "sem (grp s2) = None"
    "procs s2 = procs s1 @ [Running]" by blast
  from a b have "run (evs @ evs') s = Next s2" by (simp add: run_append)
  moreover from a b have "procs s2 = procs s @ replicate (Suc n) Running"
    by (simp add: replicate_append_same)
  ultimately show ?case using b by blast
qed

lemma unlimited_running:
  assumes "New parent mode (map WithLimit []) = Inr s0"
  shows "\<exists>evs s. run evs s0 = Next s \<and> running s = n \<and> holding s = n \<and> Len (grp s) = 0"
proof -
  from New_WithLimit(1,9) [OF assms] have z: "procs s0 = []" "sem (grp s0) = None" by simp_all
  from spawn_many [OF z(2), of n] z obtain evs s where
    "run evs s0 = Next s" "sem (grp s) = None" "procs s = replicate n Running" by auto
  then have "run evs s0 = Next s \<and> running s = n \<and> holding s = n \<and> Len (grp s) = 0"
    by (simp add: running_def holding_def Len_def)
  then show ?thesis by blast
qed

lemma filter_length_mono:
  "(\<And>x. P x \<Longrightarrow> Q x) \<Longrightarrow> length (filter P xs) \<le> length (filter Q xs)"
  by (induction xs) auto

lemma running_le_holding: "running s \<le> holding s"
  unfolding running_def holding_def by (rule filter_length_mono) simp

lemma outstanding_goto:
  "i < length (procs s) \<Longrightarrow>
     outstanding (goto i p s) =
     (if counted (procs s ! i) then (if counted p then outstanding s else outstanding s - 1)
      else (if counted p then Suc (outstanding s) else outstanding s))"
  by (simp add: outstanding_def filter_update_count)

lemma outstanding_pos: "i < length (procs s) \<Longrightarrow> counted (procs s ! i) \<Longrightarrow> 0 < outstanding s"
  unfolding outstanding_def by (rule filter_nth_pos)

lemma outstanding_simps [simp]:
  "outstanding (s\<lparr>grp := g\<rparr>) = outstanding s" "outstanding (s\<lparr>ctx := c\<rparr>) = outstanding s"
  "outstanding (Cancel s) = outstanding s" "outstanding (record_error e s) = outstanding s"
  "outstanding (s\<lparr>procs := procs s @ [p]\<rparr>) = outstanding s + (if counted p then 1 else 0)"
  by (simp_all add: outstanding_def)

lemma exec_wg_outstanding:
  assumes "exec ev s = Next s'" and "wg (grp s) = int (outstanding s)"
  shows "wg (grp s') = int (outstanding s')"
  using assms
proof (cases rule: exec_cases)
  case (Handoff i j c)
  then have "i \<noteq> j" by auto
  with Handoff assms(2) show ?thesis by (simp add: outstanding_goto)
next
  case (DoneWg i)
  with outstanding_pos [of i s] assms(2) show ?thesis by (simp add: outstanding_goto)
qed (simp_all add: outstanding_goto)

lemma run_wg_outstanding:
  assumes "New parent mode (map WithLimit ks) = Inr s0" and "run evs s0 = Next s"
  shows "wg (grp s) = int (outstanding s)"
proof -
  from New_WithLimit(1,7) [OF assms(1)] have "wg (grp s0) = int (outstanding s0)"
    by (simp add: outstanding_def)
  with assms(2) show ?thesis
    by (rule run_invariant) (rule exec_wg_outstanding)
qed

lemma exec_zero_gate:
  assumes "exec ev s = Next s'" and "sem (grp s) = Some c" and "chan_cap c = 0"
    and "chan_len c = 0" and "\<forall>p \<in> set (procs s). not_started p"
  shows "sem (grp s') = Some c \<and> (\<forall>p \<in> set (procs s'). not_started p)"
proof -
  have ns: "not_started (procs s ! i)" if "i < length (procs s)" for i
    using that assms(5) by simp
  have upd: "\<forall>p \<in> set ((procs s)[i := v]). not_started p" if "not_started v" for i v
    using assms(5) that set_update_subset_insert [of "procs s" i v] by auto
  from assms(1) show ?thesis
  proof (cases rule: exec_cases)
    case (Handoff i j c)
    with ns [of j] show ?thesis by simp
  next
    case (AddSem i c')
    with assms(2-4) show ?thesis by simp
  next
    case (AddWg i)
    with ns [of i] show ?thesis by simp
  next
    case (GoStmt i)
    with ns [of i] show ?thesis by simp
  next
    case (Return i r)
    with ns [of i] show ?thesis by simp
  next
    case (ReturnedNil i)
    with ns [of i] show ?thesis by simp
  next
    case (ReturnedErr i e)
    with ns [of i] show ?thesis by simp
  next
    case (Lock i e)
    with ns [of i] show ?thesis by simp
  next
    case (Critical i e)
    with ns [of i] show ?thesis by simp
  next
    case (Unlock i)
    with ns [of i] show ?thesis by simp
  next
    case (DoneSemNil i)
    with ns [of i] show ?thesis by simp
  next
    case (DoneSem i c')
    with ns [of i] show ?thesis by simp
  next
    case (DoneWg i)
    with ns [of i] show ?thesis by simp
  next
    case (WaitWg i)
    with upd [of WaitCancel i] assms(2) show ?thesis by simp
  next
    case (WaitCancel i)
    with upd [of WaitReturn i] assms(2) show ?thesis by simp
  next
    case (WaitReturn i)
    with upd [of "Waited (err (grp s))" i] assms(2) show ?thesis by simp
  qed (use assms(2,5) in simp_all)
qed

lemma run_zero_gate:
  assumes "New parent mode (map WithLimit (ks @ [0])) = Inr s0" and "run evs s0 = Next s"
  shows "sem (grp s) = Some \<lparr>chan_cap = 0, chan_len = 0\<rparr> \<and> (\<forall>p \<in> set (procs s). not_started p)"
proof -
  from New_WithLimit(1,9) [OF assms(1)]
  have "sem (grp s0) = Some \<lparr>chan_cap = 0, chan_len = 0\<rparr> \<and> (\<forall>p \<in> set (procs s0). not_started p)"
    by simp
  with assms(2) show ?thesis
    by (rule run_invariant) (use exec_zero_gate in fastforce)
qed


section \<open>Errors on their way to the error slot\<close>

lemma is_go_refl: "comparable e \<Longrightarrow> is_go e e"
  by (cases e) simp_all

lemma errors_Is_Join_new: "comparable e \<Longrightarrow> errors_Is (errors_Join [old, Some e]) (Some e)"
  by (cases old) (simp_all add: errors_Is_def errors_Join_def List.map_filter_def is_go_refl)

lemma errors_Is_Join_old:
  "errors_Is old (Some x) \<Longrightarrow> errors_Is (errors_Join [old, Some e]) (Some x)"
  by (cases old) (auto simp: errors_Is_def errors_Join_def List.map_filter_def)

lemma errors_Join_not_nil: "errors_Join [old, Some e] \<noteq> None"
  by (cases old) (simp_all add: errors_Join_def List.map_filter_def)

lemma returned_errors_append:
  "returned_errors (xs @ ys) = returned_errors xs @ returned_errors ys"
  by (induction xs rule: returned_errors.induct) simp_all

lemma returned_errors_single:
  "returned_errors [ev] = (case ev of Return i (Some e) \<Rightarrow> [e] | _ \<Rightarrow> [])"
  by (cases ev) (auto split: option.splits)

lemma pending_simps [simp]:
  "pending (s\<lparr>grp := g\<rparr>) e = pending s e" "pending (s\<lparr>ctx := c\<rparr>) e = pending s e"
  "pending (Cancel s) e = pending s e" "pending (record_error x s) e = pending s e"
  "pending (s\<lparr>procs := procs s @ [p]\<rparr>) e = (pending s e \<or> carries p = Some e)"
  by (auto simp: pending_def)

lemma pending_goto_new: "i < length (procs s) \<Longrightarrow> carries p = Some e \<Longrightarrow> pending (goto i p s) e"
  by (auto simp: pending_def set_update_memI)

lemma pending_goto_keep:
  assumes "pending s e" and "carries (procs s ! i) \<noteq> Some e"
  shows "pending (goto i p s) e"
proof -
  from assms(1) obtain j where j: "j < length (procs s)" "carries (procs s ! j) = Some e"
    by (auto simp: pending_def in_set_conv_nth)
  with assms(2) have "j \<noteq> i" by auto
  with j have "(procs s)[i := p] ! j = procs s ! j" "j < length ((procs s)[i := p])" by simp_all
  with j(2) show ?thesis
    unfolding pending_def by (metis goto_simps(3) nth_mem)
qed

lemma pending_goto_old:
  assumes "pending (goto i p s) e"
  shows "pending s e \<or> carries p = Some e"
  using assms set_update_subset_insert [of "procs s" i p] by (auto simp: pending_def)

lemma pending_counted:
  assumes "pending s e"
  shows "0 < outstanding s"
proof -
  from assms obtain j where j: "j < length (procs s)" "carries (procs s ! j) = Some e"
    by (auto simp: pending_def in_set_conv_nth)
  have "counted q" if "carries q = Some e" for q
    using that by (cases q) simp_all
  with j outstanding_pos [of j s] show ?thesis by blast
qed

subsection \<open>How a step changes the place of a goroutine\<close>

lemma pc_at_goto: "pc_at (goto i p s) w = (if w = i \<and> i < length (procs s) then Some p else pc_at s w)"
  by (simp add: pc_at_def)

lemma pc_at_simps [simp]:
  "pc_at (s\<lparr>grp := g\<rparr>) w = pc_at s w" "pc_at (s\<lparr>ctx := c\<rparr>) w = pc_at s w"
  "pc_at (Cancel s) w = pc_at s w" "pc_at (record_error x s) w = pc_at s w"
  by (simp_all add: pc_at_def)

lemma pc_at_append:
  "pc_at (s\<lparr>procs := procs s @ [p]\<rparr>) w =
     (if w = length (procs s) then Some p else pc_at s w)"
  by (auto simp: pc_at_def nth_append)

lemma exec_pc_Wait:
  assumes "exec ev s = Next s'"
  shows "(pc_at s w = Some WaitCancel \<longrightarrow>
            pc_at s' w = Some WaitCancel \<or> pc_at s' w = Some WaitReturn)
    \<and> (pc_at s w = Some WaitReturn \<longrightarrow>
            pc_at s' w = Some WaitReturn \<or> pc_at s' w = Some (Waited (err (grp s))))
    \<and> (pc_at s w = Some (Waited r) \<longrightarrow> pc_at s' w = Some (Waited r))"
  using assms
  by (cases rule: exec_cases) (auto simp: pc_at_goto pc_at_append pc_at_Some)

lemma exec_pc_Waited:
  assumes "exec ev s = Next s'" and "pc_at s' w = Some (Waited r)"
  shows "pc_at s w = Some (Waited r) \<or> (pc_at s w = Some WaitReturn \<and> r = err (grp s))"
  using assms
  by (cases rule: exec_cases) (auto simp: pc_at_goto pc_at_append pc_at_Some split: if_splits)

subsection \<open>The error slot along a run\<close>

lemma record_error_err:
  "err (grp (record_error x s)) =
     (if failureMode (grp s) = FailFast then (if errOnce (grp s) then err (grp s) else Some x)
      else errors_Join [err (grp s), Some x])"
  "errOnce (grp (record_error x s)) = (errOnce (grp s) \<or> failureMode (grp s) = FailFast)"
  by (simp_all add: record_error_def Let_def Cancel_def)

lemma pending_goto_step:
  assumes "pending s e" and "carries (procs s ! i) = Some e \<Longrightarrow> carries p = Some e"
    and "i < length (procs s)"
  shows "pending (goto i p s) e"
proof (cases "carries (procs s ! i) = Some e")
  case True
  with assms(2,3) show ?thesis by (simp add: pending_goto_new)
next
  case False
  with assms(1) show ?thesis by (rule pending_goto_keep)
qed

lemma pending_goto_grp:
  assumes "pending s e" and "carries (procs s ! i) = Some e \<Longrightarrow> carries p = Some e"
    and "i < length (procs s)"
  shows "pending (goto i p (s\<lparr>grp := g\<rparr>)) e"
  using pending_goto_step [of "s\<lparr>grp := g\<rparr>" e i p] assms by simp

lemma exec_pending_Collect:
  assumes "exec ev s = Next s'" and "failureMode (grp s) = Collect_mode"
    and "pending s e \<or> errors_Is (err (grp s)) (Some e)" and "comparable e"
  shows "pending s' e \<or> errors_Is (err (grp s')) (Some e)"
  using assms(1)
proof (cases rule: exec_cases)
  case (Critical i x)
  show ?thesis
  proof (cases "errors_Is (err (grp s)) (Some e) \<or> x = e")
    case True
    with Critical assms(2,4) show ?thesis
      by (auto simp: record_error_err errors_Is_Join_new errors_Is_Join_old)
  next
    case False
    with assms(3) Critical have "pending (record_error x s) e"
      "carries (procs (record_error x s) ! i) \<noteq> Some e" by simp_all
    then have "pending (goto i Unlock (record_error x s)) e" by (rule pending_goto_keep)
    with Critical show ?thesis by simp
  qed
next
  case (Handoff i j c)
  have "pending s' e" if "pending s e"
  proof -
    from that Handoff have "pending (goto i AddWg s) e" by (intro pending_goto_step) simp_all
    moreover from Handoff have "carries (procs (goto i AddWg s) ! j) \<noteq> Some e"
      by (cases "i = j") simp_all
    ultimately show ?thesis unfolding Handoff(8) by (rule pending_goto_keep)
  qed
  with assms(3) Handoff show ?thesis by auto
qed (use assms(3) in \<open>auto intro: pending_goto_step pending_goto_grp\<close>)


lemma errors_Join_Some: "\<exists>y. errors_Join [old, Some e] = Some y"
  by (cases old) (simp_all add: errors_Join_def List.map_filter_def)

lemma pending_nth: "i < length (procs s) \<Longrightarrow> carries (procs s ! i) = Some e \<Longrightarrow> pending s e"
  unfolding pending_def by (metis nth_mem)

lemma exec_err_slot:
  assumes "exec ev s = Next s'" and "errOnce (grp s) \<longrightarrow> err (grp s) \<noteq> None"
  shows "err (grp s) \<noteq> None \<longrightarrow> err (grp s') \<noteq> None"
    and "errOnce (grp s') \<longrightarrow> err (grp s') \<noteq> None"
    and "err (grp s') \<noteq> None \<longrightarrow> err (grp s) \<noteq> None \<or> (\<exists>x. pending s x)"
proof -
  have "(err (grp s) \<noteq> None \<longrightarrow> err (grp s') \<noteq> None)
      \<and> (errOnce (grp s') \<longrightarrow> err (grp s') \<noteq> None)
      \<and> (err (grp s') \<noteq> None \<longrightarrow> err (grp s) \<noteq> None \<or> (\<exists>x. pending s x))"
    using assms(1)
  proof (cases rule: exec_cases)
    case (Critical i x)
    then have "pending s x" by (simp add: pending_nth)
    with Critical assms(2) show ?thesis
      by (auto simp: record_error_err errors_Join_Some)
  qed (use assms(2) in simp_all)
  then show "err (grp s) \<noteq> None \<longrightarrow> err (grp s') \<noteq> None"
    and "errOnce (grp s') \<longrightarrow> err (grp s') \<noteq> None"
    and "err (grp s') \<noteq> None \<longrightarrow> err (grp s) \<noteq> None \<or> (\<exists>x. pending s x)"
    by simp_all
qed

lemma exec_pending_any:
  assumes "exec ev s = Next s'" and "errOnce (grp s) \<longrightarrow> err (grp s) \<noteq> None"
    and "pending s e"
  shows "pending s' e \<or> err (grp s') \<noteq> None"
  using assms(1)
proof (cases rule: exec_cases)
  case (Critical i x)
  with assms(2) show ?thesis
    by (auto simp: record_error_err errors_Join_Some)
next
  case (Handoff i j c)
  from assms(3) Handoff have "pending (goto i AddWg s) e" by (intro pending_goto_step) simp_all
  moreover from Handoff have "carries (procs (goto i AddWg s) ! j) \<noteq> Some e"
    by (cases "i = j") simp_all
  ultimately have "pending (goto j DoneWg (goto i AddWg s)) e" by (rule pending_goto_keep)
  with Handoff show ?thesis by simp
qed (use assms(3) in \<open>auto intro: pending_goto_step pending_goto_grp\<close>)

lemma exec_pending_origin:
  assumes "exec ev s = Next s'" and "pending s' e"
  shows "pending s e \<or> (\<exists>i. ev = Return i (Some e))"
  using assms(1)
proof (cases rule: exec_cases)
  case (Handoff i j c)
  with assms(2) pending_goto_old [of j DoneWg "goto i AddWg s" e]
  have "pending (goto i AddWg s) e" by simp
  with pending_goto_old [of i AddWg s e] show ?thesis by simp
next
  case (Return i r)
  with assms(2) pending_goto_old [of i "Returned r" s e] show ?thesis by auto
next
  case (ReturnedErr i x)
  with assms(2) pending_goto_old [of i "Lock x" s e] pending_nth [of i s x] show ?thesis by auto
next
  case (Lock i x)
  with assms(2) pending_goto_old [of i "Critical x" "s\<lparr>grp := (grp s)\<lparr>errLock := True\<rparr>\<rparr>" e]
    pending_nth [of i s x] show ?thesis by auto
qed (use assms(2) in \<open>auto dest: pending_goto_old\<close>)

lemma exec_Return_pending: "exec (Return i (Some e)) s = Next s' \<Longrightarrow> pending s' e"
  by (auto simp: pc_at_Some pending_goto_new split: if_splits)

lemma exec_FailFast_latch:
  assumes "exec ev s = Next s'" and "failureMode (grp s) = FailFast"
  shows "(\<not> errOnce (grp s) \<longrightarrow> err (grp s) = None) \<longrightarrow>
           (\<not> errOnce (grp s') \<longrightarrow> err (grp s') = None)"
    and "errOnce (grp s) \<longrightarrow> errOnce (grp s') \<and> err (grp s') = err (grp s)"
  using assms by (cases rule: exec_cases; simp add: record_error_err)+


lemma returned_errors_snoc:
  "e \<in> set (returned_errors (evs @ [ev])) \<longleftrightarrow>
     e \<in> set (returned_errors evs) \<or> (\<exists>i. ev = Return i (Some e))"
  by (cases ev) (auto simp: returned_errors_append returned_errors_single split: option.splits)

lemma run_errors_inv:
  assumes "New parent mode (map WithLimit ks) = Inr s0" and "run evs s0 = Next s"
  shows "(errOnce (grp s) \<longrightarrow> err (grp s) \<noteq> None)
     \<and> (\<forall>e. pending s e \<longrightarrow> e \<in> set (returned_errors evs))
     \<and> (\<forall>e \<in> set (returned_errors evs). pending s e \<or> err (grp s) \<noteq> None)
     \<and> (err (grp s) \<noteq> None \<longrightarrow> returned_errors evs \<noteq> [])
     \<and> (mode = Collect_mode \<longrightarrow>
          (\<forall>e \<in> set (returned_errors evs).
              comparable e \<longrightarrow> pending s e \<or> errors_Is (err (grp s)) (Some e)))
     \<and> (mode = FailFast \<longrightarrow> \<not> errOnce (grp s) \<longrightarrow> err (grp s) = None)
     \<and> (\<forall>w r. pc_at s w = Some (Waited r) \<longrightarrow> r \<noteq> None \<longrightarrow> returned_errors evs \<noteq> [])"
  using assms(2)
proof (induction evs arbitrary: s rule: rev_induct)
  case Nil
  then have "s = s0" by simp
  with New_WithLimit(1,4,5) [OF assms(1)] show ?case
    by (simp add: pending_def pc_at_def)
next
  case (snoc ev evs)
  from snoc.prems obtain s1 where s1: "run evs s0 = Next s1" and ex: "exec ev s1 = Next s"
    by (auto simp: run_snoc_Next)
  from snoc.IH [OF s1]
  have i1: "errOnce (grp s1) \<longrightarrow> err (grp s1) \<noteq> None"
    and i2: "\<And>e. pending s1 e \<Longrightarrow> e \<in> set (returned_errors evs)"
    and i3: "\<And>e. e \<in> set (returned_errors evs) \<Longrightarrow> pending s1 e \<or> err (grp s1) \<noteq> None"
    and i4: "err (grp s1) \<noteq> None \<Longrightarrow> returned_errors evs \<noteq> []"
    and i5: "\<And>e. mode = Collect_mode \<Longrightarrow> e \<in> set (returned_errors evs) \<Longrightarrow>
               comparable e \<Longrightarrow> pending s1 e \<or> errors_Is (err (grp s1)) (Some e)"
    and i6: "mode = FailFast \<Longrightarrow> \<not> errOnce (grp s1) \<longrightarrow> err (grp s1) = None"
    and i7: "\<And>w r. pc_at s1 w = Some (Waited r) \<Longrightarrow> r \<noteq> None \<Longrightarrow> returned_errors evs \<noteq> []"
    by blast+
  from run_fixed_fields [OF s1] New_WithLimit(8) [OF assms(1)]
  have mode: "failureMode (grp s1) = mode" by simp
  note slot = exec_err_slot [OF ex i1]
  have grow: "returned_errors evs \<noteq> [] \<Longrightarrow> returned_errors (evs @ [ev]) \<noteq> []"
    by (simp add: returned_errors_append)
  have c1: "errOnce (grp s) \<longrightarrow> err (grp s) \<noteq> None"
    by (rule slot(2))
  have c2: "e \<in> set (returned_errors (evs @ [ev]))" if "pending s e" for e
    using exec_pending_origin [OF ex that] i2 [of e] by (auto simp: returned_errors_snoc)
  have c3: "pending s e \<or> err (grp s) \<noteq> None" if "e \<in> set (returned_errors (evs @ [ev]))" for e
  proof -
    from that consider "e \<in> set (returned_errors evs)" | i where "ev = Return i (Some e)"
      by (auto simp: returned_errors_snoc)
    then show ?thesis
    proof cases
      case 1
      from i3 [OF 1] exec_pending_any [OF ex i1, of e] slot(1) show ?thesis by blast
    next
      case 2
      with ex exec_Return_pending [of i e s1 s] show ?thesis by simp
    qed
  qed
  have c4: "returned_errors (evs @ [ev]) \<noteq> []" if "err (grp s) \<noteq> None"
  proof -
    from slot(3) that consider "err (grp s1) \<noteq> None" | x where "pending s1 x" by blast
    then show ?thesis
    proof cases
      case 1
      from grow [OF i4 [OF 1]] show ?thesis .
    next
      case 2
      from i2 [OF 2] have "returned_errors evs \<noteq> []" by auto
      then show ?thesis by (rule grow)
    qed
  qed
  have c5: "pending s e \<or> errors_Is (err (grp s)) (Some e)"
    if "mode = Collect_mode" "e \<in> set (returned_errors (evs @ [ev]))" "comparable e" for e
  proof -
    from that(2) consider "e \<in> set (returned_errors evs)" | i where "ev = Return i (Some e)"
      by (auto simp: returned_errors_snoc)
    then show ?thesis
    proof cases
      case 1
      from that(1) mode have "failureMode (grp s1) = Collect_mode" by simp
      from exec_pending_Collect [OF ex this i5 [OF that(1) 1 that(3)] that(3)] show ?thesis .
    next
      case 2
      with ex exec_Return_pending [of i e s1 s] show ?thesis by simp
    qed
  qed
  have c6: "\<not> errOnce (grp s) \<longrightarrow> err (grp s) = None" if "mode = FailFast"
    using exec_FailFast_latch(1) [OF ex] mode that i6 by simp
  have c7: "returned_errors (evs @ [ev]) \<noteq> []" if "pc_at s w = Some (Waited r)" "r \<noteq> None" for w r
  proof -
    from exec_pc_Waited [OF ex that(1)]
    consider "pc_at s1 w = Some (Waited r)" | "r = err (grp s1)" by blast
    then show ?thesis
    proof cases
      case 1
      from grow [OF i7 [OF 1 that(2)]] show ?thesis .
    next
      case 2
      with that(2) have "err (grp s1) \<noteq> None" by simp
      from grow [OF i4 [OF this]] show ?thesis .
    qed
  qed
  from c1 c2 c3 c4 c5 c6 c7 show ?case by blast
qed

subsection \<open>What a caller of Wait gets\<close>

lemma run_invariant_events:
  assumes "run evs s = Next s'" and "P s"
    and "\<And>ev s s'. ev \<in> set evs \<Longrightarrow> P s \<Longrightarrow> exec ev s = Next s' \<Longrightarrow> P s'"
  shows "P s'"
  using assms
proof (induction evs arbitrary: s)
  case Nil
  then show ?case by simp
next
  case (Cons ev evs)
  from Cons.prems(1) obtain s1 where s1: "exec ev s = Next s1" "run evs s1 = Next s'"
    by (auto split: outcome.splits)
  from Cons.prems(3) [of ev s s1] Cons.prems(2) s1(1) have "P s1" by simp
  moreover have "P t'" if "e \<in> set evs" "P t" "exec e t = Next t'" for e t t'
    using Cons.prems(3) [of e t t'] that by simp
  ultimately show ?case using Cons.IH [OF s1(2)] by blast
qed

lemma Waited_after:
  assumes "run evs s = Next s'" and "R s"
    and "\<And>ev t t'. R t \<Longrightarrow> exec ev t = Next t' \<Longrightarrow> R t'"
    and "\<And>t. R t \<Longrightarrow> Q (err (grp t))"
  shows "R s' \<and> (\<forall>w r. pc_at s' w = Some (Waited r) \<longrightarrow> Q r \<or> pc_at s w = Some (Waited r))"
  using assms(1)
proof (rule run_invariant)
  from assms(2) show "R s \<and> (\<forall>w r. pc_at s w = Some (Waited r) \<longrightarrow> Q r \<or> pc_at s w = Some (Waited r))"
    by simp
next
  fix ev t t'
  assume p: "R t \<and> (\<forall>w r. pc_at t w = Some (Waited r) \<longrightarrow> Q r \<or> pc_at s w = Some (Waited r))"
    and ex: "exec ev t = Next t'"
  from p ex assms(3) have "R t'" by blast
  moreover have "Q r \<or> pc_at s w = Some (Waited r)" if "pc_at t' w = Some (Waited r)" for w r
    using exec_pc_Waited [OF ex that] p assms(4) by blast
  ultimately show "R t' \<and> (\<forall>w r. pc_at t' w = Some (Waited r) \<longrightarrow> Q r \<or> pc_at s w = Some (Waited r))"
    by blast
qed


lemma no_outstanding_no_pending: "outstanding s = 0 \<Longrightarrow> \<not> pending s e"
  using pending_counted [of s e] by auto

lemma Wait_barrier:
  assumes "pc_at s w = Some WaitWg"
  shows "exec (Step w) s = (if wg (grp s) = 0 then Next (goto w WaitCancel s) else Blocked)"
  using assms by simp

lemma Wait_three_steps:
  assumes "pc_at s w = Some WaitWg" and "wg (grp s) = 0"
  shows "\<exists>s'. run [Step w, Step w, Step w] s = Next s' \<and> pc_at s' w = Some (Waited (err (grp s)))"
  using assms by (simp add: pc_at_def split: if_splits)

lemma exec_waiter_nil:
  assumes "exec ev s = Next s'" and "ev \<noteq> CallGo"
    and "(\<forall>p \<in> set (procs s). waiter_nil p) \<and> err (grp s) = None"
  shows "(\<forall>p \<in> set (procs s'). waiter_nil p) \<and> err (grp s') = None"
proof -
  have ns: "waiter_nil (procs s ! i)" if "i < length (procs s)" for i
    using that assms(3) by simp
  have upd: "\<forall>p \<in> set ((procs s)[i := v]). waiter_nil p" if "waiter_nil v" for i v
    using assms(3) that set_update_subset_insert [of "procs s" i v] by auto
  from assms(1) show ?thesis
  proof (cases rule: exec_cases)
    case CallGo
    with assms(2) show ?thesis by simp
  next
    case (Handoff i j c)
    with ns [of j] show ?thesis by simp
  next
    case (AddSemNil i)
    with ns [of i] show ?thesis by simp
  next
    case (AddSem i c')
    with ns [of i] show ?thesis by simp
  next
    case (AddWg i)
    with ns [of i] show ?thesis by simp
  next
    case (GoStmt i)
    with ns [of i] show ?thesis by simp
  next
    case (Return i r)
    with ns [of i] show ?thesis by simp
  next
    case (ReturnedNil i)
    with ns [of i] show ?thesis by simp
  next
    case (ReturnedErr i e)
    with ns [of i] show ?thesis by simp
  next
    case (Lock i e)
    with ns [of i] show ?thesis by simp
  next
    case (Critical i e)
    with ns [of i] show ?thesis by simp
  next
    case (Unlock i)
    with ns [of i] show ?thesis by simp
  next
    case (DoneSemNil i)
    with ns [of i] show ?thesis by simp
  next
    case (DoneSem i c')
    with ns [of i] show ?thesis by simp
  next
    case (DoneWg i)
    with ns [of i] show ?thesis by simp
  next
    case (WaitWg i)
    with upd [of WaitCancel i] assms(3) show ?thesis by simp
  next
    case (WaitCancel i)
    with upd [of WaitReturn i] assms(3) show ?thesis by simp
  next
    case (WaitReturn i)
    with upd [of "Waited (err (grp s))" i] assms(3) show ?thesis by simp
  qed (use assms(3) in simp_all)
qed

lemma run_waiter_nil:
  assumes "New parent mode (map WithLimit ks) = Inr s0" and "run evs s0 = Next s"
    and "CallGo \<notin> set evs"
  shows "(\<forall>p \<in> set (procs s). waiter_nil p) \<and> err (grp s) = None"
  using assms(2)
proof (rule run_invariant_events)
  from New_WithLimit(1,4) [OF assms(1)]
  show "(\<forall>p \<in> set (procs s0). waiter_nil p) \<and> err (grp s0) = None" by simp
next
  fix ev t t'
  assume "ev \<in> set evs" and p: "(\<forall>p \<in> set (procs t). waiter_nil p) \<and> err (grp t) = None"
    and ex: "exec ev t = Next t'"
  with assms(3) have "ev \<noteq> CallGo" by auto
  from exec_waiter_nil [OF ex this p]
  show "(\<forall>p \<in> set (procs t'). waiter_nil p) \<and> err (grp t') = None" .
qed


lemma waiter_nil_outstanding:
  assumes "\<forall>p \<in> set (procs s). waiter_nil p"
  shows "outstanding s = 0"
proof -
  have "\<not> counted p" if "waiter_nil p" for p
    using that by (cases p) simp_all
  with assms show ?thesis by (auto simp: outstanding_def filter_empty_conv)
qed

lemma settled_errors:
  assumes "New parent mode (map WithLimit ks) = Inr s0" and "run evs s0 = Next s"
    and "wg (grp s) = 0"
  shows "err (grp s) = None \<longleftrightarrow> returned_errors evs = []"
    and "mode = Collect_mode \<Longrightarrow>
           \<forall>e \<in> set (returned_errors evs). comparable e \<longrightarrow> errors_Is (err (grp s)) (Some e)"
proof -
  from run_wg_outstanding [OF assms(1,2)] assms(3) have "outstanding s = 0" by simp
  then have np: "\<not> pending s e" for e by (rule no_outstanding_no_pending)
  from run_errors_inv [OF assms(1,2)] np
  have a: "\<forall>e \<in> set (returned_errors evs). err (grp s) \<noteq> None"
    and b: "err (grp s) \<noteq> None \<longrightarrow> returned_errors evs \<noteq> []"
    and c: "mode = Collect_mode \<longrightarrow>
         (\<forall>e \<in> set (returned_errors evs). comparable e \<longrightarrow> errors_Is (err (grp s)) (Some e))"
    by blast+
  from a have "returned_errors evs \<noteq> [] \<longrightarrow> err (grp s) \<noteq> None"
    by (cases "returned_errors evs") auto
  with b show "err (grp s) = None \<longleftrightarrow> returned_errors evs = []" by blast
  from c show "mode = Collect_mode \<Longrightarrow>
      \<forall>e \<in> set (returned_errors evs). comparable e \<longrightarrow> errors_Is (err (grp s)) (Some e)"
    by simp
qed

lemma Wait_passes:
  assumes "pc_at s w = Some WaitWg" and "run (Step w # evs) s = Next s'"
  shows "wg (grp s) = 0" and "run evs (goto w WaitCancel s) = Next s'"
    and "pc_at (goto w WaitCancel s) w = Some WaitCancel"
proof -
  from assms(2) obtain t where t: "exec (Step w) s = Next t" "run evs t = Next s'"
    using run_Cons_Next [of "Step w" evs s s'] by blast
  from t(1) Wait_barrier [OF assms(1)] have z: "wg (grp s) = 0" "t = goto w WaitCancel s"
    by (auto split: if_splits)
  from z show "wg (grp s) = 0" by simp
  from z t show "run evs (goto w WaitCancel s) = Next s'" by simp
  from assms(1) show "pc_at (goto w WaitCancel s) w = Some WaitCancel"
    by (simp add: pc_at_goto pc_at_Some)
qed

section \<open>Cancel is idempotent\<close>

text \<open>
  Claim C6. \<open>Cancel\<close> is idempotent: in any state of any Group (whatever the failure
  mode, whatever the goroutines are doing, also after \<open>Wait\<close> has returned) a call of
  \<open>Cancel\<close> goes through without blocking or panicking, any number of calls in a row
  leaves the state that one call leaves, once the cancel function has been called every
  later call of \<open>Cancel\<close> changes nothing, and a derived context that is done stays done
  along every run.
\<close>

theorem Cancel_idempotent:
  "exec CallCancel s = Next (Cancel s)
   \<and> run (replicate (Suc n) CallCancel) s = Next (Cancel s)
   \<and> (cancelled (ctx s) \<and> run evs s = Next s' \<longrightarrow>
        cancelled (ctx s') \<and> exec CallCancel s' = Next s')
   \<and> (Done (ctx s) \<and> run evs s = Next s' \<longrightarrow> Done (ctx s'))"
proof -
  have "cancelled (ctx s') \<and> exec CallCancel s' = Next s'"
    if "cancelled (ctx s)" "run evs s = Next s'"
    using run_cancelled_mono [OF that(2,1)] by (simp add: Cancel_cancelled)
  moreover have "Done (ctx s')" if "Done (ctx s)" "run evs s = Next s'"
    using that run_cancelled_mono [of evs s s'] run_parent_done_mono [of evs s s']
    by (auto simp: Done_def)
  ultimately show ?thesis
    using run_replicate_Cancel [of n s] by auto
qed

theorem Cancel_idempotent_witness:
  "\<exists>s0 s s'. New False FailFast [] = Inr s0 \<and> run [CallGo, CallWait, CallCancel] s0 = Next s
     \<and> cancelled (ctx s) \<and> Done (ctx s)
     \<and> run [Step 1, Step 1, Step 1, CallGo, ParentCancel] s = Next s'
     \<and> pc_at s' 1 = Some (Waited None)
     \<and> exec CallCancel s = Next (Cancel s)
     \<and> run (replicate (Suc 2) CallCancel) s = Next (Cancel s)
     \<and> cancelled (ctx s') \<and> exec CallCancel s' = Next s' \<and> Done (ctx s')"
proof -
  have "\<exists>s0 s s'. New False FailFast [] = Inr s0 \<and> run [CallGo, CallWait, CallCancel] s0 = Next s
     \<and> cancelled (ctx s) \<and> Done (ctx s)
     \<and> run [Step 1, Step 1, Step 1, CallGo, ParentCancel] s = Next s'
     \<and> pc_at s' 1 = Some (Waited None)"
    by (simp add: New_def pc_at_def Done_def)
  then obtain s0 s s' where h: "New False FailFast [] = Inr s0"
    "run [CallGo, CallWait, CallCancel] s0 = Next s" "cancelled (ctx s)" "Done (ctx s)"
    "run [Step 1, Step 1, Step 1, CallGo, ParentCancel] s = Next s'"
    "pc_at s' 1 = Some (Waited None)"
    by blast
  from Cancel_idempotent [of s 2 "[Step 1, Step 1, Step 1, CallGo, ParentCancel]" s'] h
  show ?thesis by blast
qed

section \<open>What triggers cancellation\<close>

lemma exec_lock_inv:
  assumes "exec ev s = Next s'" and "lock_inv s"
  shows "lock_inv s'"
  using assms
proof (cases rule: exec_cases)
  case (Handoff i j c)
  then have "i \<noteq> j" by auto
  with Handoff assms(2) show ?thesis by (simp add: lock_inv_def filter_update_count)
qed (auto simp: lock_inv_def filter_update_count split: if_splits)

lemma run_lock_inv:
  assumes "New parent mode (map WithLimit ks) = Inr s0" and "run evs s0 = Next s"
  shows "lock_inv s"
proof -
  from New_WithLimit(1,6) [OF assms(1)] have "lock_inv s0" by (simp add: lock_inv_def)
  with assms(2) show ?thesis by (rule run_invariant) (rule exec_lock_inv)
qed

lemma task_progress:
  assumes "New parent mode (map WithLimit ks) = Inr s0" and "run evs s0 = Next s"
    and "pc_at s i = Some p"
  shows "finishing p \<Longrightarrow> \<exists>t. exec (Step i) s = Next t"
    and "p = Lock e \<Longrightarrow> (exec (Step i) s = Blocked \<longleftrightarrow> errLock (grp s))
           \<and> (\<not> errLock (grp s) \<longrightarrow> (\<exists>t. exec (Step i) s = Next t))
           \<and> (errLock (grp s) \<longrightarrow> (\<exists>j q. pc_at s j = Some q \<and> locked q \<and> finishing q))"
proof -
  from assms(3) have i: "i < length (procs s)" "procs s ! i = p" by (simp_all add: pc_at_Some)
  note li = run_lock_inv [OF assms(1,2)]
  note wgo = run_wg_outstanding [OF assms(1,2)]
  from run_sem_inv [OF assms(2) New_sem_inv [OF assms(1)]] have si: "sem_inv s" .
  show "\<exists>t. exec (Step i) s = Next t" if "finishing p"
  proof (cases p)
    case (Returned r)
    with assms(3) show ?thesis by (cases r) simp_all
  next
    case (Critical x)
    with assms(3) show ?thesis by simp
  next
    case Unlock
    with i filter_nth_pos [of i "procs s" locked] have "0 < length (filter locked (procs s))"
      by simp
    with li have "errLock (grp s)" by (simp add: lock_inv_def split: if_splits)
    with Unlock assms(3) show ?thesis by simp
  next
    case DoneSem
    with i holding_pos [of i s] have "0 < holding s" by simp
    with si DoneSem assms(3) show ?thesis
      by (cases "sem (grp s)") (simp_all add: sem_inv_def)
  next
    case DoneWg
    with i outstanding_pos [of i s] wgo have "1 \<le> wg (grp s)" by simp
    with DoneWg assms(3) show ?thesis by simp
  qed (use that in simp_all)
  show "(exec (Step i) s = Blocked \<longleftrightarrow> errLock (grp s))
           \<and> (\<not> errLock (grp s) \<longrightarrow> (\<exists>t. exec (Step i) s = Next t))
           \<and> (errLock (grp s) \<longrightarrow> (\<exists>j q. pc_at s j = Some q \<and> locked q \<and> finishing q))"
    if "p = Lock e"
  proof -
    have "\<exists>j q. pc_at s j = Some q \<and> locked q \<and> finishing q" if "errLock (grp s)"
    proof -
      from that li have "filter locked (procs s) \<noteq> []" by (auto simp: lock_inv_def)
      then obtain q where q: "q \<in> set (procs s)" "locked q"
        by (auto simp: filter_empty_conv)
      then obtain j where "j < length (procs s)" "procs s ! j = q"
        by (auto simp: in_set_conv_nth)
      then have "pc_at s j = Some q" by (simp add: pc_at_Some)
      moreover from q(2) have "finishing q" by (cases q) simp_all
      ultimately show ?thesis using q(2) by blast
    qed
    with \<open>p = Lock e\<close> assms(3) show ?thesis by auto
  qed
qed

lemma notin_update: "x \<notin> set xs \<Longrightarrow> x \<noteq> v \<Longrightarrow> x \<notin> set (xs[i := v])"
  using set_update_subset_insert [of xs i v] by auto

lemma exec_Collect_live:
  assumes "exec ev s = Next s'" and "ev \<noteq> CallCancel" and "ev \<noteq> ParentCancel"
    and "ev \<noteq> CallWait" and "failureMode (grp s) = Collect_mode"
    and "\<not> Done (ctx s) \<and> WaitWg \<notin> set (procs s) \<and> WaitCancel \<notin> set (procs s)"
  shows "\<not> Done (ctx s') \<and> WaitWg \<notin> set (procs s') \<and> WaitCancel \<notin> set (procs s')"
  using assms(1)
proof (cases rule: exec_cases)
  case (WaitWg i)
  with assms(6) nth_mem [of i "procs s"] show ?thesis by auto
next
  case (WaitCancel i)
  with assms(6) nth_mem [of i "procs s"] show ?thesis by auto
qed (use assms(2-6) in \<open>simp_all add: Done_def notin_update\<close>)

lemma run_Collect_live:
  assumes "New False Collect_mode (map WithLimit ks) = Inr s0" and "run evs s0 = Next s"
    and "CallCancel \<notin> set evs" and "ParentCancel \<notin> set evs" and "CallWait \<notin> set evs"
  shows "\<not> Done (ctx s)"
proof -
  let ?P = "\<lambda>t. failureMode (grp t) = Collect_mode
    \<and> (\<not> Done (ctx t) \<and> WaitWg \<notin> set (procs t) \<and> WaitCancel \<notin> set (procs t))"
  have "?P s"
    using assms(2)
  proof (rule run_invariant_events)
    from New_WithLimit(1,2,8) [OF assms(1)] show "?P s0" by (simp add: Done_def)
  next
    fix ev t t'
    assume ev: "ev \<in> set evs" and P: "?P t" and ex: "exec ev t = Next t'"
    from ev assms(3-5) have n: "ev \<noteq> CallCancel" "ev \<noteq> ParentCancel" "ev \<noteq> CallWait" by auto
    from P have m: "failureMode (grp t) = Collect_mode" by simp
    from exec_Collect_live [OF ex n m] P exec_fixed_fields [OF ex] show "?P t'" by simp
  qed
  then show ?thesis by simp
qed

text \<open>
  The derived context of \<open>context.WithCancel(ctx)\<close> is also done when the parent
  context is cancelled, which is none of the three events: with a task running and
  nothing called, the cancellation of the parent makes the derived context done, the
  cancel function not having been called.
\<close>

theorem cancellation_triggers_counterexample:
  "\<exists>s0 s s'. New False Collect_mode (map WithLimit []) = Inr s0
     \<and> run [CallGo, Step 0, Step 0, Step 0] s0 = Next s
     \<and> pc_at s 0 = Some Running \<and> \<not> Done (ctx s)
     \<and> exec ParentCancel s = Next s' \<and> Done (ctx s') \<and> \<not> cancelled (ctx s')"
  by (simp add: New_def pc_at_def Done_def)

text \<open>
  Claim C3, as the code has it. In a Group made by \<open>New\<close>, a step takes the cancel
  function of the derived context from not called to called exactly when it is an
  explicit \<open>Cancel\<close> call, the handling of an error under \<open>FailFast\<close> with the \<open>errOnce\<close>
  latch not yet fired (the first error), or the \<open>g.Cancel()\<close> of \<open>Wait\<close> after its
  barrier (whatever the tasks returned); and a step takes the derived context from not
  done to done exactly when it is one of these three or the cancellation of the parent
  context. The handling of a task error under \<open>Collect\<close> is none of them: under
  \<open>Collect\<close>, with the parent not cancelled and neither \<open>Cancel\<close> nor \<open>Wait\<close> called, the
  context is not done whatever the tasks return. And the Group stops no task: after its
  \<open>fn()\<close> has returned every step of a task goes through up to its exit, but the
  \<open>Lock\<close> while another task holds the lock, whose own steps go through.
\<close>

theorem cancellation_triggers:
  "(New parent mode (map WithLimit ks) = Inr s0 \<and> run evs s0 = Next s \<and> exec ev s = Next s'
      \<longrightarrow>
      failureMode (grp s) = mode
      \<and> (\<not> cancelled (ctx s) \<longrightarrow>
          (cancelled (ctx s') \<longleftrightarrow>
             ev = CallCancel
             \<or> (\<exists>i e. ev = Step i \<and> pc_at s i = Some (Critical e) \<and> mode = FailFast
                   \<and> \<not> errOnce (grp s))
             \<or> (\<exists>i. ev = Step i \<and> pc_at s i = Some WaitCancel)))
      \<and> (\<not> Done (ctx s) \<longrightarrow>
          (Done (ctx s') \<longleftrightarrow>
             ev = CallCancel \<or> ev = ParentCancel
             \<or> (\<exists>i e. ev = Step i \<and> pc_at s i = Some (Critical e) \<and> mode = FailFast
                   \<and> \<not> errOnce (grp s))
             \<or> (\<exists>i. ev = Step i \<and> pc_at s i = Some WaitCancel)))
      \<and> (mode = Collect_mode \<and> (\<exists>i e. ev = Step i \<and> pc_at s i = Some (Critical e)) \<longrightarrow>
            cancelled (ctx s') = cancelled (ctx s) \<and> Done (ctx s') = Done (ctx s)))
   \<and> (New False Collect_mode (map WithLimit ks) = Inr s0 \<and> run evs s0 = Next s
        \<and> CallCancel \<notin> set evs \<and> ParentCancel \<notin> set evs \<and> CallWait \<notin> set evs
      \<longrightarrow> \<not> Done (ctx s))
   \<and> (New parent mode (map WithLimit ks) = Inr s0 \<and> run evs s0 = Next s \<and> pc_at s i = Some p
      \<longrightarrow>
      (finishing p \<longrightarrow> (\<exists>t. exec (Step i) s = Next t))
      \<and> ((\<exists>e. p = Lock e) \<longrightarrow>
            (exec (Step i) s = Blocked \<longleftrightarrow> errLock (grp s))
            \<and> (\<not> errLock (grp s) \<longrightarrow> (\<exists>t. exec (Step i) s = Next t))
            \<and> (errLock (grp s) \<longrightarrow> (\<exists>j q. pc_at s j = Some q \<and> locked q \<and> finishing q))))"
proof -
  have A: "failureMode (grp s) = mode
      \<and> (\<not> cancelled (ctx s) \<longrightarrow>
          (cancelled (ctx s') \<longleftrightarrow>
             ev = CallCancel
             \<or> (\<exists>i e. ev = Step i \<and> pc_at s i = Some (Critical e) \<and> mode = FailFast
                   \<and> \<not> errOnce (grp s))
             \<or> (\<exists>i. ev = Step i \<and> pc_at s i = Some WaitCancel)))
      \<and> (\<not> Done (ctx s) \<longrightarrow>
          (Done (ctx s') \<longleftrightarrow>
             ev = CallCancel \<or> ev = ParentCancel
             \<or> (\<exists>i e. ev = Step i \<and> pc_at s i = Some (Critical e) \<and> mode = FailFast
                   \<and> \<not> errOnce (grp s))
             \<or> (\<exists>i. ev = Step i \<and> pc_at s i = Some WaitCancel)))
      \<and> (mode = Collect_mode \<and> (\<exists>i e. ev = Step i \<and> pc_at s i = Some (Critical e)) \<longrightarrow>
            cancelled (ctx s') = cancelled (ctx s) \<and> Done (ctx s') = Done (ctx s))"
    if n: "New parent mode (map WithLimit ks) = Inr s0" and r: "run evs s0 = Next s"
      and ex: "exec ev s = Next s'"
  proof -
    from run_fixed_fields [OF r] New_WithLimit(3,8) [OF n]
    have g: "cancel (grp s)" "failureMode (grp s) = mode" by simp_all
    have c: "cancelled (ctx s') \<longleftrightarrow>
             ev = CallCancel
             \<or> (\<exists>i e. ev = Step i \<and> pc_at s i = Some (Critical e) \<and> mode = FailFast
                   \<and> \<not> errOnce (grp s))
             \<or> (\<exists>i. ev = Step i \<and> pc_at s i = Some WaitCancel)"
      if "\<not> cancelled (ctx s)"
      using ex g that by (cases rule: exec_cases) (simp_all add: pc_at_Some)
    have p: "parent_done (ctx s') \<longleftrightarrow> parent_done (ctx s) \<or> ev = ParentCancel"
      using ex by (cases rule: exec_cases) simp_all
    have d: "cancelled (ctx s') = cancelled (ctx s) \<and> Done (ctx s') = Done (ctx s)"
      if "mode = Collect_mode" "\<exists>i e. ev = Step i \<and> pc_at s i = Some (Critical e)"
      using ex that g(2) by (cases rule: exec_cases) (auto simp: Done_def pc_at_Some)
    from g c p d show ?thesis by (auto simp: Done_def)
  qed
  have B: "\<not> Done (ctx s)"
    if "New False Collect_mode (map WithLimit ks) = Inr s0" "run evs s0 = Next s"
      "CallCancel \<notin> set evs" "ParentCancel \<notin> set evs" "CallWait \<notin> set evs"
    using that by (rule run_Collect_live)
  have C: "(finishing p \<longrightarrow> (\<exists>t. exec (Step i) s = Next t))
      \<and> ((\<exists>e. p = Lock e) \<longrightarrow>
            (exec (Step i) s = Blocked \<longleftrightarrow> errLock (grp s))
            \<and> (\<not> errLock (grp s) \<longrightarrow> (\<exists>t. exec (Step i) s = Next t))
            \<and> (errLock (grp s) \<longrightarrow> (\<exists>j q. pc_at s j = Some q \<and> locked q \<and> finishing q)))"
    if "New parent mode (map WithLimit ks) = Inr s0" "run evs s0 = Next s" "pc_at s i = Some p"
    using task_progress(1) [OF that] task_progress(2) [OF that] by blast
  from A B C show ?thesis by blast
qed

theorem cancellation_triggers_witness:
  "\<exists>s0 s s' t0 t t' u. New False FailFast (map WithLimit [2]) = Inr s0
     \<and> run [CallGo, Step 0, Step 0, Step 0, Return 0 (Some (ErrorString 7)), Step 0, Step 0] s0 = Next s
     \<and> exec (Step 0) s = Next s' \<and> \<not> Done (ctx s) \<and> \<not> cancelled (ctx s)
     \<and> pc_at s 0 = Some (Critical (ErrorString 7)) \<and> \<not> errOnce (grp s)
     \<and> failureMode (grp s) = FailFast \<and> cancelled (ctx s') \<and> Done (ctx s')
     \<and> New False Collect_mode (map WithLimit []) = Inr t0
     \<and> run [CallGo, Step 0, Step 0, Step 0, Return 0 (Some (ErrorString 7)), Step 0, Step 0] t0 = Next t
     \<and> CallCancel \<notin> set [CallGo, Step 0, Step 0, Step 0, Return 0 (Some (ErrorString 7)), Step 0, Step 0]
     \<and> ParentCancel \<notin> set [CallGo, Step 0, Step 0, Step 0, Return 0 (Some (ErrorString 7)), Step 0, Step 0]
     \<and> CallWait \<notin> set [CallGo, Step 0, Step 0, Step 0, Return 0 (Some (ErrorString 7)), Step 0, Step 0]
     \<and> exec (Step 0) t = Next t' \<and> \<not> Done (ctx t)
     \<and> pc_at t 0 = Some (Critical (ErrorString 7)) \<and> finishing (Critical (ErrorString 7))
     \<and> \<not> cancelled (ctx t') \<and> \<not> Done (ctx t')
     \<and> exec ParentCancel t = Next u \<and> Done (ctx u)"
proof -
  let ?evs = "[CallGo, Step 0, Step 0, Step 0, Return 0 (Some (ErrorString 7)), Step 0, Step 0]"
  have "\<exists>s0 s s'. New False FailFast (map WithLimit [2]) = Inr s0
     \<and> run ?evs s0 = Next s
     \<and> exec (Step 0) s = Next s' \<and> \<not> Done (ctx s) \<and> \<not> cancelled (ctx s)
     \<and> pc_at s 0 = Some (Critical (ErrorString 7)) \<and> \<not> errOnce (grp s)"
    by (simp add: New_def WithLimit_def pc_at_def Done_def)
  then obtain s0 s s' where h: "New False FailFast (map WithLimit [2]) = Inr s0"
    "run ?evs s0 = Next s" "exec (Step 0) s = Next s'"
    and p: "\<not> Done (ctx s)" "\<not> cancelled (ctx s)"
      "pc_at s 0 = Some (Critical (ErrorString 7))" "\<not> errOnce (grp s)"
    by blast
  have "\<exists>t0 t t' u. New False Collect_mode (map WithLimit []) = Inr t0
     \<and> run ?evs t0 = Next t
     \<and> exec (Step 0) t = Next t' \<and> pc_at t 0 = Some (Critical (ErrorString 7))
     \<and> exec ParentCancel t = Next u"
    by (simp add: New_def pc_at_def)
  then obtain t0 t t' u where k: "New False Collect_mode (map WithLimit []) = Inr t0"
    "run ?evs t0 = Next t" "exec (Step 0) t = Next t'"
    and q: "pc_at t 0 = Some (Critical (ErrorString 7))" "exec ParentCancel t = Next u"
    by blast
  have n: "CallCancel \<notin> set ?evs" "ParentCancel \<notin> set ?evs" "CallWait \<notin> set ?evs"
    by simp_all
  from cancellation_triggers [where parent = False and mode = FailFast and ks = "[2]"
      and ?s0.0 = s0 and evs = ?evs and s = s and ev = "Step 0" and s' = s'] h p
  have a: "failureMode (grp s) = FailFast \<and> cancelled (ctx s') \<and> Done (ctx s')"
    by blast
  from cancellation_triggers [where parent = False and mode = Collect_mode and ks = "[]"
      and ?s0.0 = t0 and evs = ?evs and s = t and ev = "Step 0" and s' = t'] k n q
  have b: "\<not> Done (ctx t)" and c: "cancelled (ctx t') = cancelled (ctx t) \<and> Done (ctx t') = Done (ctx t)"
    by blast+
  from cancellation_triggers [where parent = False and mode = Collect_mode and ks = "[]"
      and ?s0.0 = t0 and evs = ?evs and s = t and ev = ParentCancel and s' = u] k q b
  have d: "Done (ctx u)" by blast
  from b c have e: "\<not> cancelled (ctx t') \<and> \<not> Done (ctx t')" by (simp add: Done_def)
  have f: "finishing (Critical (ErrorString 7))" by simp
  from h p a k n q b d e f show ?thesis by blast
qed

section \<open>The concurrency limit\<close>

lemma gate_acquire:
  assumes "sem (grp s) = Some c" and "chan_len c = holding s" and "chan_len c \<le> chan_cap c"
    and "pc_at s i = Some AddSem"
  shows "exec (Step i) s = Blocked \<longleftrightarrow> holding s = chan_cap c"
    and "exec (Step i) s = Next s' \<Longrightarrow>
           pc_at s' i = Some AddWg \<and> holding s' = holding s + 1 \<and> Len (grp s') = Len (grp s) + 1"
proof -
  from assms(4) have i: "i < length (procs s)" "procs s ! i = AddSem"
    by (simp_all add: pc_at_Some)
  from assms show "exec (Step i) s = Blocked \<longleftrightarrow> holding s = chan_cap c"
    by auto
  assume "exec (Step i) s = Next s'"
  with assms(1,4)
  have s': "s' = goto i AddWg (s\<lparr>grp := (grp s)\<lparr>sem := Some (c\<lparr>chan_len := chan_len c + 1\<rparr>)\<rparr>\<rparr>)"
    by (auto split: if_splits)
  from i have "holding s' = holding s + 1"
    unfolding s' by (simp add: holding_goto)
  moreover from i have "pc_at s' i = Some AddWg"
    unfolding s' by (simp add: pc_at_goto)
  moreover from assms(1) have "Len (grp s') = Len (grp s) + 1"
    unfolding s' by (simp add: Len_def)
  ultimately show "pc_at s' i = Some AddWg \<and> holding s' = holding s + 1
      \<and> Len (grp s') = Len (grp s) + 1"
    by simp
qed

lemma gate_release:
  assumes "sem (grp s) = Some c" and "chan_len c = holding s" and "pc_at s i = Some DoneSem"
  shows "\<exists>s'. exec (Step i) s = Next s' \<and> pc_at s' i = Some DoneWg
           \<and> holding s' + 1 = holding s \<and> Len (grp s') + 1 = Len (grp s)"
proof -
  from assms(3) have i: "i < length (procs s)" "procs s ! i = DoneSem"
    by (simp_all add: pc_at_Some)
  from holding_pos [of i s] i have pos: "0 < holding s" by simp
  let ?s' = "goto i DoneWg (s\<lparr>grp := (grp s)\<lparr>sem := Some (c\<lparr>chan_len := chan_len c - 1\<rparr>)\<rparr>\<rparr>)"
  from assms pos have "exec (Step i) s = Next ?s'" by simp
  moreover from i have "pc_at ?s' i = Some DoneWg" by (simp add: pc_at_goto)
  moreover from i pos have "holding ?s' + 1 = holding s" by (simp add: holding_goto)
  moreover from assms(1,2) pos have "Len (grp ?s') + 1 = Len (grp s)" by (simp add: Len_def)
  ultimately show ?thesis by blast
qed

text \<open>
  Claim C4. With \<open>WithLimit(k)\<close> as the last limit option, in every state the Group can
  reach the units in \<open>g.sem\<close> are exactly the goroutines that have sent on it and not
  yet received from it (among them every running task), and they are at most \<open>k\<close>. The
  send in \<open>add\<close> is blocked exactly when they are \<open>k\<close>, and when it goes through there
  is one unit more; the receive in \<open>done\<close> always goes through and leaves one unit less.
  With no limit option the send and the receive never block and change nothing of the
  Group, and for every \<open>n\<close> a state with \<open>n\<close> tasks running at once can be reached.
\<close>

theorem admission_gate_bound:
  "(New parent mode (map WithLimit (ks @ [k])) = Inr s0 \<and> run evs s0 = Next s \<longrightarrow>
      (\<exists>c. sem (grp s) = Some c \<and> int (chan_cap c) = k \<and> chan_len c = holding s)
      \<and> int (holding s) \<le> k \<and> running s \<le> holding s
      \<and> (\<forall>i. pc_at s i = Some AddSem \<longrightarrow>
            (exec (Step i) s = Blocked \<longleftrightarrow> int (holding s) = k)
            \<and> (\<forall>s'. exec (Step i) s = Next s' \<longrightarrow>
                  pc_at s' i = Some AddWg \<and> holding s' = holding s + 1
                  \<and> Len (grp s') = Len (grp s) + 1))
      \<and> (\<forall>i. pc_at s i = Some DoneSem \<longrightarrow>
            (\<exists>s'. exec (Step i) s = Next s' \<and> pc_at s' i = Some DoneWg
               \<and> holding s' + 1 = holding s \<and> Len (grp s') + 1 = Len (grp s))))
   \<and> (New parent mode (map WithLimit []) = Inr s0 \<and> run evs s0 = Next s \<longrightarrow>
        (\<forall>i. pc_at s i = Some AddSem \<longrightarrow> exec (Step i) s = Next (goto i AddWg s)) \<and>
        (\<forall>i. pc_at s i = Some DoneSem \<longrightarrow> exec (Step i) s = Next (goto i DoneWg s)))
   \<and> (New parent mode (map WithLimit []) = Inr s0 \<longrightarrow>
        (\<exists>evs s. run evs s0 = Next s \<and> running s = n))"
proof -
  have "(\<exists>c. sem (grp s) = Some c \<and> int (chan_cap c) = k \<and> chan_len c = holding s)
      \<and> int (holding s) \<le> k \<and> running s \<le> holding s
      \<and> (\<forall>i. pc_at s i = Some AddSem \<longrightarrow>
            (exec (Step i) s = Blocked \<longleftrightarrow> int (holding s) = k)
            \<and> (\<forall>s'. exec (Step i) s = Next s' \<longrightarrow>
                  pc_at s' i = Some AddWg \<and> holding s' = holding s + 1
                  \<and> Len (grp s') = Len (grp s) + 1))
      \<and> (\<forall>i. pc_at s i = Some DoneSem \<longrightarrow>
            (\<exists>s'. exec (Step i) s = Next s' \<and> pc_at s' i = Some DoneWg
               \<and> holding s' + 1 = holding s \<and> Len (grp s') + 1 = Len (grp s)))"
    if "New parent mode (map WithLimit (ks @ [k])) = Inr s0" "run evs s0 = Next s"
  proof -
    from limited_run [OF that] obtain c where c: "sem (grp s) = Some c" "int (chan_cap c) = k"
      "chan_len c = holding s" "chan_len c \<le> chan_cap c" by blast
    have a: "exec (Step i) s = Blocked \<longleftrightarrow> int (holding s) = k" if "pc_at s i = Some AddSem" for i
      using gate_acquire(1) [OF c(1,3,4) that] c(2) by auto
    have b: "pc_at s' i = Some AddWg \<and> holding s' = holding s + 1 \<and> Len (grp s') = Len (grp s) + 1"
      if "pc_at s i = Some AddSem" "exec (Step i) s = Next s'" for i s'
      using gate_acquire(2) [OF c(1,3,4) that] .
    have d: "\<exists>s'. exec (Step i) s = Next s' \<and> pc_at s' i = Some DoneWg
               \<and> holding s' + 1 = holding s \<and> Len (grp s') + 1 = Len (grp s)"
      if "pc_at s i = Some DoneSem" for i
      using gate_release [OF c(1,3) that] .
    from c have e: "int (holding s) \<le> k" by auto
    from c a b d e running_le_holding [of s] show ?thesis by blast
  qed
  moreover have "exec (Step i) s = Next (goto i AddWg s)"
    if "New parent mode (map WithLimit []) = Inr s0" "run evs s0 = Next s"
      "pc_at s i = Some AddSem" for i
    using unlimited_run [OF that(1,2)] that(3) by simp
  moreover have "exec (Step i) s = Next (goto i DoneWg s)"
    if "New parent mode (map WithLimit []) = Inr s0" "run evs s0 = Next s"
      "pc_at s i = Some DoneSem" for i
    using unlimited_run [OF that(1,2)] that(3) by simp
  moreover have "\<exists>evs s. run evs s0 = Next s \<and> running s = n"
    if "New parent mode (map WithLimit []) = Inr s0"
    using unlimited_running [OF that, of n] by blast
  ultimately show ?thesis by blast
qed

theorem admission_gate_bound_witness:
  "\<exists>s0 s s' t0 t. New False Collect_mode (map WithLimit [1]) = Inr s0
     \<and> run [CallGo, Step 0, Step 0, Step 0, CallGo, Return 0 None, Step 0] s0 = Next s
     \<and> pc_at s 0 = Some DoneSem \<and> pc_at s 1 = Some AddSem
     \<and> int (holding s) = 1 \<and> running s \<le> holding s \<and> Len (grp s) = holding s
     \<and> exec (Step 1) s = Blocked
     \<and> exec (Step 0) s = Next s' \<and> pc_at s' 0 = Some DoneWg
     \<and> holding s' + 1 = holding s \<and> Len (grp s') + 1 = Len (grp s)
     \<and> New False Collect_mode (map WithLimit []) = Inr t0
     \<and> run [CallGo, Step 0, Step 0, Step 0, Return 0 None, Step 0, CallGo] t0 = Next t
     \<and> pc_at t 0 = Some DoneSem \<and> pc_at t 1 = Some AddSem
     \<and> exec (Step 1) t = Next (goto 1 AddWg t)
     \<and> exec (Step 0) t = Next (goto 0 DoneWg t)
     \<and> (\<exists>evs u. run evs t0 = Next u \<and> running u = 5)"
proof -
  have "\<exists>s0 s. New False Collect_mode (map WithLimit ([] @ [1])) = Inr s0
     \<and> run [CallGo, Step 0, Step 0, Step 0, CallGo, Return 0 None, Step 0] s0 = Next s
     \<and> pc_at s 0 = Some DoneSem \<and> pc_at s 1 = Some AddSem \<and> holding s = 1"
    by (simp add: New_def WithLimit_def pc_at_def holding_def)
  then obtain s0 s where h: "New False Collect_mode (map WithLimit ([] @ [1])) = Inr s0"
    "run [CallGo, Step 0, Step 0, Step 0, CallGo, Return 0 None, Step 0] s0 = Next s"
    and b: "pc_at s 0 = Some DoneSem" "pc_at s 1 = Some AddSem" "holding s = 1"
    by blast
  have "\<exists>t0 t. New False Collect_mode (map WithLimit []) = Inr t0
     \<and> run [CallGo, Step 0, Step 0, Step 0, Return 0 None, Step 0, CallGo] t0 = Next t
     \<and> pc_at t 0 = Some DoneSem \<and> pc_at t 1 = Some AddSem"
    by (simp add: New_def pc_at_def)
  then obtain t0 t where k: "New False Collect_mode (map WithLimit []) = Inr t0"
    "run [CallGo, Step 0, Step 0, Step 0, Return 0 None, Step 0, CallGo] t0 = Next t"
    and p: "pc_at t 0 = Some DoneSem" "pc_at t 1 = Some AddSem"
    by blast
  from admission_gate_bound [of False Collect_mode "[]" 1 s0 _ s] h
  have a1: "\<exists>c. sem (grp s) = Some c \<and> int (chan_cap c) = 1 \<and> chan_len c = holding s"
    and a2: "running s \<le> holding s"
    and a3: "\<forall>i. pc_at s i = Some AddSem \<longrightarrow> (exec (Step i) s = Blocked \<longleftrightarrow> int (holding s) = 1)"
    and a4: "\<forall>i. pc_at s i = Some DoneSem \<longrightarrow>
            (\<exists>s'. exec (Step i) s = Next s' \<and> pc_at s' i = Some DoneWg
               \<and> holding s' + 1 = holding s \<and> Len (grp s') + 1 = Len (grp s))"
    by blast+
  from a1 have l: "Len (grp s) = holding s" by (auto simp: Len_def)
  from a3 b have bl: "exec (Step 1) s = Blocked" by simp
  from a4 b obtain s' where s': "exec (Step 0) s = Next s'" "pc_at s' 0 = Some DoneWg"
    "holding s' + 1 = holding s" "Len (grp s') + 1 = Len (grp s)" by blast
  from admission_gate_bound [of False Collect_mode _ _ t0 _ t 5] k p
  have c: "exec (Step 1) t = Next (goto 1 AddWg t) \<and> exec (Step 0) t = Next (goto 0 DoneWg t)
     \<and> (\<exists>evs u. run evs t0 = Next u \<and> running u = 5)" by blast
  from h have n: "New False Collect_mode (map WithLimit [1]) = Inr s0" by simp
  from b have "int (holding s) = 1" by simp
  with n h(2) b a2 l bl s' k p c show ?thesis by blast
qed

section \<open>Len\<close>

text \<open>
  Claim C9. \<open>Len\<close> is \<open>len(g.sem)\<close>. With a limit configured it is, in every reachable
  state, the number of goroutines that have sent on \<open>g.sem\<close> and not yet received from
  it. With no limit it is 0 in every reachable state, among them, for every \<open>n\<close>, a state
  with \<open>n\<close> tasks running.
\<close>

theorem Len_counts_holders:
  "(New parent mode (map WithLimit (ks @ [k])) = Inr s0 \<and> run evs s0 = Next s \<longrightarrow>
      Len (grp s) = holding s)
   \<and> (New parent mode (map WithLimit []) = Inr s0 \<and> run evs s0 = Next s \<longrightarrow> Len (grp s) = 0)
   \<and> (New parent mode (map WithLimit []) = Inr s0 \<longrightarrow>
        (\<exists>evs s. run evs s0 = Next s \<and> running s = n \<and> Len (grp s) = 0))"
proof -
  have "Len (grp s) = holding s"
    if "New parent mode (map WithLimit (ks @ [k])) = Inr s0" "run evs s0 = Next s"
    using limited_run [OF that] by (auto simp: Len_def)
  moreover have "Len (grp s) = 0"
    if "New parent mode (map WithLimit []) = Inr s0" "run evs s0 = Next s"
    using unlimited_run [OF that] by (simp add: Len_def)
  moreover have "\<exists>evs s. run evs s0 = Next s \<and> running s = n \<and> Len (grp s) = 0"
    if "New parent mode (map WithLimit []) = Inr s0"
    using unlimited_running [OF that, of n] by blast
  ultimately show ?thesis by blast
qed

theorem Len_counts_holders_witness:
  "\<exists>s0 s t0 t. New False FailFast (map WithLimit [3]) = Inr s0
     \<and> run [CallGo, Step 0, CallGo, Step 1, Step 0, Step 0, Return 0 None, Step 0, Step 0] s0 = Next s
     \<and> pc_at s 0 = Some DoneWg \<and> pc_at s 1 = Some AddWg
     \<and> Len (grp s) = holding s \<and> holding s = 1
     \<and> New False FailFast (map WithLimit []) = Inr t0
     \<and> run [CallGo, Step 0, Step 0, Step 0, CallGo, Step 1, Step 1, Step 1] t0 = Next t
     \<and> running t = 2 \<and> Len (grp t) = 0
     \<and> (\<exists>evs u. run evs t0 = Next u \<and> running u = 7 \<and> Len (grp u) = 0)"
proof -
  have "\<exists>s0 s. New False FailFast (map WithLimit ([] @ [3])) = Inr s0
     \<and> run [CallGo, Step 0, CallGo, Step 1, Step 0, Step 0, Return 0 None, Step 0, Step 0] s0 = Next s
     \<and> pc_at s 0 = Some DoneWg \<and> pc_at s 1 = Some AddWg \<and> holding s = 1"
    by (simp add: New_def WithLimit_def pc_at_def holding_def)
  then obtain s0 s where h: "New False FailFast (map WithLimit ([] @ [3])) = Inr s0"
    "run [CallGo, Step 0, CallGo, Step 1, Step 0, Step 0, Return 0 None, Step 0, Step 0] s0 = Next s"
    and p: "pc_at s 0 = Some DoneWg" "pc_at s 1 = Some AddWg" "holding s = 1"
    by blast
  have "\<exists>t0 t. New False FailFast (map WithLimit []) = Inr t0
     \<and> run [CallGo, Step 0, Step 0, Step 0, CallGo, Step 1, Step 1, Step 1] t0 = Next t
     \<and> running t = 2"
    by (simp add: New_def pc_at_def running_def)
  then obtain t0 t where k: "New False FailFast (map WithLimit []) = Inr t0"
    "run [CallGo, Step 0, Step 0, Step 0, CallGo, Step 1, Step 1, Step 1] t0 = Next t"
    and q: "running t = 2"
    by blast
  from Len_counts_holders [of False FailFast "[]" 3 s0 _ s] h
  have a: "Len (grp s) = holding s" by blast
  from Len_counts_holders [of False FailFast _ _ t0 _ t 7] k
  have c: "Len (grp t) = 0 \<and> (\<exists>evs u. run evs t0 = Next u \<and> running u = 7 \<and> Len (grp u) = 0)"
    by blast
  from h have "New False FailFast (map WithLimit [3]) = Inr s0" by simp
  with h(2) p a k q c show ?thesis by blast
qed

section \<open>A limit of zero\<close>

text \<open>
  Claim C10. With \<open>WithLimit(0)\<close> as the last limit option \<open>g.sem\<close> is an unbuffered
  channel. In every reachable state every caller of \<open>Go\<close> is still at the send in \<open>add\<close>,
  its step is blocked and no receiver is there to meet it, and no goroutine is past the
  send: no task has started, whatever is called and however often.
\<close>

theorem zero_limit_blocks:
  assumes "New parent mode (map WithLimit (ks @ [0])) = Inr s0" and "run evs s0 = Next s"
  shows "sem (grp s) = Some \<lparr>chan_cap = 0, chan_len = 0\<rparr>
    \<and> (\<forall>i p. pc_at s i = Some p \<longrightarrow> not_started p)
    \<and> (\<forall>i. pc_at s i = Some AddSem \<longrightarrow>
          exec (Step i) s = Blocked \<and> (\<forall>j. exec (Handoff i j) s = NoSuchStep))
    \<and> running s = 0 \<and> holding s = 0"
proof -
  from run_zero_gate [OF assms]
  have z: "sem (grp s) = Some \<lparr>chan_cap = 0, chan_len = 0\<rparr>" "\<forall>p \<in> set (procs s). not_started p"
    by simp_all
  have ns: "not_started p" if "pc_at s i = Some p" for i p
    using that z(2) by (auto simp: pc_at_Some)
  have "exec (Handoff i j) s = NoSuchStep" for i j
    using ns [of j DoneSem] by auto
  moreover have "exec (Step i) s = Blocked" if "pc_at s i = Some AddSem" for i
    using that z(1) by simp
  moreover have "holding s = 0"
    using limited_run [OF assms] z(1) by auto
  moreover from this have "running s = 0"
    using running_le_holding [of s] by simp
  ultimately show ?thesis using z(1) ns by blast
qed

theorem zero_limit_blocks_witness:
  "\<exists>s0 s. New False Collect_mode (map WithLimit [4, 0]) = Inr s0
     \<and> run [CallGo, CallGo, CallWait, Step 2, CallCancel] s0 = Next s
     \<and> pc_at s 0 = Some AddSem \<and> pc_at s 1 = Some AddSem
     \<and> exec (Step 0) s = Blocked \<and> exec (Step 1) s = Blocked
     \<and> exec (Handoff 0 1) s = NoSuchStep
     \<and> running s = 0 \<and> holding s = 0"
proof -
  have "\<exists>s0 s. New False Collect_mode (map WithLimit ([4] @ [0])) = Inr s0
     \<and> run [CallGo, CallGo, CallWait, Step 2, CallCancel] s0 = Next s
     \<and> pc_at s 0 = Some AddSem \<and> pc_at s 1 = Some AddSem"
    by (simp add: New_def WithLimit_def pc_at_def)
  then obtain s0 s where h: "New False Collect_mode (map WithLimit ([4] @ [0])) = Inr s0"
    "run [CallGo, CallGo, CallWait, Step 2, CallCancel] s0 = Next s"
    and p: "pc_at s 0 = Some AddSem" "pc_at s 1 = Some AddSem"
    by blast
  from zero_limit_blocks [OF h] p
  have "exec (Step 0) s = Blocked \<and> exec (Step 1) s = Blocked
     \<and> exec (Handoff 0 1) s = NoSuchStep \<and> running s = 0 \<and> holding s = 0"
    by blast
  moreover from h have "New False Collect_mode (map WithLimit [4, 0]) = Inr s0" by simp
  ultimately show ?thesis using h(2) p by blast
qed

section \<open>The order of the steps of Go\<close>

text \<open>
  \<open>add\<close> sends on \<open>g.sem\<close> before it calls \<open>g.wg.Add(1)\<close>. So a caller of \<open>Go\<close> that
  waits at the gate has not been counted yet: with a limit of 1, one task running and a
  second call of \<open>Go\<close> blocked at the gate, the counter is 1 and not 2.
\<close>

theorem Go_order_counterexample:
  "\<exists>s0 s. New False Collect_mode (map WithLimit [1]) = Inr s0
     \<and> run [CallGo, Step 0, Step 0, Step 0, CallGo] s0 = Next s
     \<and> pc_at s 0 = Some Running \<and> pc_at s 1 = Some AddSem
     \<and> exec (Step 1) s = Blocked \<and> wg (grp s) = 1 \<and> length (procs s) = 2"
  by (simp add: New_def WithLimit_def pc_at_def)

text \<open>
  Claim C7, as the code has it. \<open>Go\<close> first waits at the admission gate (its step is
  blocked exactly when \<open>g.sem\<close> is non-nil and full), then increments the counter of
  outstanding tasks, then starts the task in a goroutine of its own; it returns nothing.
  At every moment the counter is the number of goroutines between \<open>g.wg.Add(1)\<close> and
  \<open>g.wg.Done()\<close>, which leaves out the callers at the gate.
\<close>

theorem Go_order:
  assumes "New parent mode (map WithLimit ks) = Inr s0" and "run evs s0 = Next s"
    and "pc_at s i = Some AddSem"
  shows "wg (grp s) = int (outstanding s)
    \<and> (exec (Step i) s = Blocked \<longleftrightarrow> (\<exists>c. sem (grp s) = Some c \<and> chan_cap c \<le> chan_len c))
    \<and> (\<forall>s1. exec (Step i) s = Next s1 \<longrightarrow>
          pc_at s1 i = Some AddWg \<and> wg (grp s1) = wg (grp s) \<and>
          (\<exists>s2 s3. exec (Step i) s1 = Next s2 \<and> pc_at s2 i = Some GoStmt
             \<and> wg (grp s2) = wg (grp s) + 1
             \<and> exec (Step i) s2 = Next s3 \<and> pc_at s3 i = Some Running \<and> grp s3 = grp s2))"
proof -
  from assms(3) have i: "i < length (procs s)" "procs s ! i = AddSem"
    by (simp_all add: pc_at_Some)
  have "exec (Step i) s = Blocked \<longleftrightarrow> (\<exists>c. sem (grp s) = Some c \<and> chan_cap c \<le> chan_len c)"
    using assms(3) by (auto split: option.splits)
  moreover have "pc_at s1 i = Some AddWg \<and> wg (grp s1) = wg (grp s) \<and>
          (\<exists>s2 s3. exec (Step i) s1 = Next s2 \<and> pc_at s2 i = Some GoStmt
             \<and> wg (grp s2) = wg (grp s) + 1
             \<and> exec (Step i) s2 = Next s3 \<and> pc_at s3 i = Some Running \<and> grp s3 = grp s2)"
    if "exec (Step i) s = Next s1" for s1
  proof -
    from that assms(3) i have s1: "pc_at s1 i = Some AddWg" "wg (grp s1) = wg (grp s)"
      by (auto simp: pc_at_def split: option.splits if_splits)
    define s2 where "s2 = goto i GoStmt (s1\<lparr>grp := (grp s1)\<lparr>wg := wg (grp s1) + 1\<rparr>\<rparr>)"
    define s3 where "s3 = goto i Running s2"
    from s1 have e2: "exec (Step i) s1 = Next s2" by (simp add: s2_def)
    from s1 have p2: "pc_at s2 i = Some GoStmt" "wg (grp s2) = wg (grp s) + 1"
      by (simp_all add: s2_def pc_at_def split: if_splits)
    from p2 have e3: "exec (Step i) s2 = Next s3" by (simp add: s3_def)
    from p2 have p3: "pc_at s3 i = Some Running" "grp s3 = grp s2"
      by (simp_all add: s3_def pc_at_def split: if_splits)
    from s1 e2 p2 e3 p3 show ?thesis by blast
  qed
  ultimately show ?thesis
    using run_wg_outstanding [OF assms(1,2)] by blast
qed

theorem Go_order_witness:
  "\<exists>s0 s s1 s2 s3. New False Collect_mode (map WithLimit [1]) = Inr s0
     \<and> run [CallGo, Step 0, Step 0, Step 0, CallGo, Return 0 None, Step 0, Step 0] s0 = Next s
     \<and> pc_at s 1 = Some AddSem \<and> wg (grp s) = int (outstanding s) \<and> wg (grp s) = 1
     \<and> exec (Step 1) s \<noteq> Blocked
     \<and> exec (Step 1) s = Next s1 \<and> pc_at s1 1 = Some AddWg \<and> wg (grp s1) = 1
     \<and> exec (Step 1) s1 = Next s2 \<and> pc_at s2 1 = Some GoStmt \<and> wg (grp s2) = 2
     \<and> exec (Step 1) s2 = Next s3 \<and> pc_at s3 1 = Some Running \<and> grp s3 = grp s2"
proof -
  have "\<exists>s0 s s1. New False Collect_mode (map WithLimit [1]) = Inr s0
     \<and> run [CallGo, Step 0, Step 0, Step 0, CallGo, Return 0 None, Step 0, Step 0] s0 = Next s
     \<and> pc_at s 1 = Some AddSem \<and> wg (grp s) = 1 \<and> exec (Step 1) s = Next s1"
    by (simp add: New_def WithLimit_def pc_at_def)
  then obtain s0 s s1 where h: "New False Collect_mode (map WithLimit [1]) = Inr s0"
    "run [CallGo, Step 0, Step 0, Step 0, CallGo, Return 0 None, Step 0, Step 0] s0 = Next s"
    "pc_at s 1 = Some AddSem"
    and p: "wg (grp s) = 1" "exec (Step 1) s = Next s1"
    by blast
  from Go_order [OF h] p h show ?thesis by auto
qed

section \<open>Wait with no task\<close>

text \<open>
  Claim C8. On a Group on which \<open>Go\<close> was never called, whatever else was called, a
  caller of \<open>Wait\<close> at the barrier is not blocked: its three steps go through at once
  and it returns nil; and every \<open>Wait\<close> that has returned has returned nil.
\<close>

theorem Wait_without_tasks:
  assumes "New parent mode (map WithLimit ks) = Inr s0" and "run evs s0 = Next s"
    and "CallGo \<notin> set evs" and "pc_at s w = Some WaitWg"
  shows "exec (Step w) s = Next (goto w WaitCancel s)
    \<and> (\<exists>s'. run [Step w, Step w, Step w] s = Next s' \<and> pc_at s' w = Some (Waited None))
    \<and> (\<forall>v r. pc_at s v = Some (Waited r) \<longrightarrow> r = None)"
proof -
  from run_waiter_nil [OF assms(1-3)]
  have w: "\<forall>p \<in> set (procs s). waiter_nil p" and e: "err (grp s) = None" by simp_all
  from waiter_nil_outstanding [OF w] run_wg_outstanding [OF assms(1,2)]
  have z: "wg (grp s) = 0" by simp
  have "r = None" if "pc_at s v = Some (Waited r)" for v r
  proof -
    from that have "Waited r \<in> set (procs s)" by (metis pc_at_Some nth_mem)
    with w have "waiter_nil (Waited r)" by blast
    then show ?thesis by simp
  qed
  with Wait_barrier [OF assms(4)] Wait_three_steps [OF assms(4) z] z e show ?thesis
    by auto
qed

theorem Wait_without_tasks_witness:
  "\<exists>s0 s s'. New False FailFast (map WithLimit [2]) = Inr s0
     \<and> run [CallWait, CallCancel, CallWait, Step 0, Step 0, Step 0] s0 = Next s
     \<and> CallGo \<notin> set [CallWait, CallCancel, CallWait, Step 0, Step 0, Step 0]
     \<and> pc_at s 1 = Some WaitWg \<and> pc_at s 0 = Some (Waited None)
     \<and> exec (Step 1) s = Next (goto 1 WaitCancel s)
     \<and> run [Step 1, Step 1, Step 1] s = Next s' \<and> pc_at s' 1 = Some (Waited None)"
proof -
  have "\<exists>s0 s. New False FailFast (map WithLimit [2]) = Inr s0
     \<and> run [CallWait, CallCancel, CallWait, Step 0, Step 0, Step 0] s0 = Next s
     \<and> CallGo \<notin> set [CallWait, CallCancel, CallWait, Step 0, Step 0, Step 0]
     \<and> pc_at s 1 = Some WaitWg \<and> pc_at s 0 = Some (Waited None)"
    by (simp add: New_def WithLimit_def pc_at_def)
  then obtain s0 s where h: "New False FailFast (map WithLimit [2]) = Inr s0"
    "run [CallWait, CallCancel, CallWait, Step 0, Step 0, Step 0] s0 = Next s"
    "CallGo \<notin> set [CallWait, CallCancel, CallWait, Step 0, Step 0, Step 0]"
    "pc_at s 1 = Some WaitWg"
    and p: "pc_at s 0 = Some (Waited None)"
    by blast
  from Wait_without_tasks [OF h] h p show ?thesis by blast
qed

section \<open>What Wait returns\<close>

text \<open>
  Claim C5. A caller of \<open>Wait\<close> at the barrier is blocked exactly while some goroutine is
  between \<open>g.wg.Add(1)\<close> and \<open>g.wg.Done()\<close>, that is while the counter is not zero. When
  the counter is zero its steps go through and it returns the error slot, which is nil
  exactly when no task has returned an error. With other goroutines interleaved after
  the barrier: the value returned is non-nil when a task had failed before the barrier
  was passed, and nil when no task failed at all.
\<close>

theorem Wait_result:
  assumes "New parent mode (map WithLimit ks) = Inr s0" and "run evs1 s0 = Next s1"
    and "pc_at s1 w = Some WaitWg"
  shows "wg (grp s1) = int (outstanding s1)
    \<and> (exec (Step w) s1 = Blocked \<longleftrightarrow> outstanding s1 \<noteq> 0)
    \<and> (outstanding s1 = 0 \<longrightarrow>
         (\<exists>s2. run [Step w, Step w, Step w] s1 = Next s2
            \<and> pc_at s2 w = Some (Waited (err (grp s1))))
         \<and> (err (grp s1) = None \<longleftrightarrow> returned_errors evs1 = []))
    \<and> (\<forall>evs2 s2 r. run (Step w # evs2) s1 = Next s2 \<and> pc_at s2 w = Some (Waited r) \<longrightarrow>
          (r = None \<longrightarrow> returned_errors evs1 = [])
          \<and> (returned_errors (evs1 @ Step w # evs2) = [] \<longrightarrow> r = None))"
proof -
  note wgo = run_wg_outstanding [OF assms(1,2)]
  have a: "exec (Step w) s1 = Blocked \<longleftrightarrow> outstanding s1 \<noteq> 0"
    using Wait_barrier [OF assms(3)] wgo by simp
  have b: "(\<exists>s2. run [Step w, Step w, Step w] s1 = Next s2
            \<and> pc_at s2 w = Some (Waited (err (grp s1))))
         \<and> (err (grp s1) = None \<longleftrightarrow> returned_errors evs1 = [])" if "outstanding s1 = 0"
  proof -
    from that wgo have z: "wg (grp s1) = 0" by simp
    from Wait_three_steps [OF assms(3) z] settled_errors(1) [OF assms(1,2) z]
    show ?thesis by simp
  qed
  have c: "(r = None \<longrightarrow> returned_errors evs1 = [])
          \<and> (returned_errors (evs1 @ Step w # evs2) = [] \<longrightarrow> r = None)"
    if run2: "run (Step w # evs2) s1 = Next s2" and wr: "pc_at s2 w = Some (Waited r)"
    for evs2 s2 r
  proof -
    note p = Wait_passes [OF assms(3) run2]
    have "r \<noteq> None" if ne: "returned_errors evs1 \<noteq> []"
    proof -
      from settled_errors(1) [OF assms(1,2) p(1)] ne
      have "err (grp (goto w WaitCancel s1)) \<noteq> None" by simp
      with p(2) have "err (grp s2) \<noteq> None \<and>
        (\<forall>v x. pc_at s2 v = Some (Waited x) \<longrightarrow> x \<noteq> None \<or> pc_at (goto w WaitCancel s1) v = Some (Waited x))"
        by (rule Waited_after [where R = "\<lambda>t. err (grp t) \<noteq> None" and Q = "\<lambda>x. x \<noteq> None"])
           (use exec_err_slot(1) in blast)+
      with wr have "r \<noteq> None \<or> pc_at (goto w WaitCancel s1) w = Some (Waited r)" by blast
      with p(3) show ?thesis by simp
    qed
    moreover have "r = None" if "returned_errors (evs1 @ Step w # evs2) = []"
    proof -
      from assms(2) run2 have "run (evs1 @ Step w # evs2) s0 = Next s2"
        by (simp add: run_append)
      from run_errors_inv [OF assms(1) this] wr that show ?thesis by blast
    qed
    ultimately show ?thesis by blast
  qed
  from wgo a b c show ?thesis by blast
qed

theorem Wait_result_witness:
  "\<exists>s0 s1 s2. New False FailFast (map WithLimit []) = Inr s0
     \<and> run [CallGo, Step 0, Step 0, Step 0, CallWait, Return 0 (Some (ErrorString 3)),
             Step 0, Step 0, Step 0, Step 0, Step 0, Step 0] s0 = Next s1
     \<and> pc_at s1 1 = Some WaitWg \<and> pc_at s1 0 = Some Exited
     \<and> wg (grp s1) = int (outstanding s1) \<and> outstanding s1 = 0
     \<and> exec (Step 1) s1 \<noteq> Blocked
     \<and> run (Step 1 # [Step 1, Step 1]) s1 = Next s2
     \<and> pc_at s2 1 = Some (Waited (Some (ErrorString 3)))
     \<and> err (grp s1) \<noteq> None
     \<and> returned_errors [CallGo, Step 0, Step 0, Step 0, CallWait, Return 0 (Some (ErrorString 3)),
             Step 0, Step 0, Step 0, Step 0, Step 0, Step 0] \<noteq> []"
proof -
  have "\<exists>s0 s1 s2. New False FailFast (map WithLimit []) = Inr s0
     \<and> run [CallGo, Step 0, Step 0, Step 0, CallWait, Return 0 (Some (ErrorString 3)),
             Step 0, Step 0, Step 0, Step 0, Step 0, Step 0] s0 = Next s1
     \<and> pc_at s1 1 = Some WaitWg \<and> pc_at s1 0 = Some Exited \<and> outstanding s1 = 0
     \<and> run (Step 1 # [Step 1, Step 1]) s1 = Next s2
     \<and> pc_at s2 1 = Some (Waited (Some (ErrorString 3)))"
    by (simp add: New_def pc_at_def outstanding_def record_error_def Cancel_def)
  then obtain s0 s1 s2 where h: "New False FailFast (map WithLimit []) = Inr s0"
    "run [CallGo, Step 0, Step 0, Step 0, CallWait, Return 0 (Some (ErrorString 3)),
             Step 0, Step 0, Step 0, Step 0, Step 0, Step 0] s0 = Next s1"
    "pc_at s1 1 = Some WaitWg"
    and p: "pc_at s1 0 = Some Exited" "outstanding s1 = 0"
      "run (Step 1 # [Step 1, Step 1]) s1 = Next s2"
      "pc_at s2 1 = Some (Waited (Some (ErrorString 3)))"
    by blast
  from Wait_result [OF h]
  have a: "wg (grp s1) = int (outstanding s1)"
    and b: "exec (Step 1) s1 = Blocked \<longleftrightarrow> outstanding s1 \<noteq> 0"
    and c: "outstanding s1 = 0 \<longrightarrow> (err (grp s1) = None \<longleftrightarrow>
         returned_errors [CallGo, Step 0, Step 0, Step 0, CallWait, Return 0 (Some (ErrorString 3)),
             Step 0, Step 0, Step 0, Step 0, Step 0, Step 0] = [])"
    and d: "\<And>evs2 s2 r. run (Step 1 # evs2) s1 = Next s2 \<and> pc_at s2 1 = Some (Waited r) \<Longrightarrow>
          (r = None \<longrightarrow> returned_errors [CallGo, Step 0, Step 0, Step 0, CallWait,
             Return 0 (Some (ErrorString 3)), Step 0, Step 0, Step 0, Step 0, Step 0, Step 0] = [])"
    by blast+
  from d [of "[Step 1, Step 1]" s2 "Some (ErrorString 3)"] p
  have e: "returned_errors [CallGo, Step 0, Step 0, Step 0, CallWait, Return 0 (Some (ErrorString 3)),
             Step 0, Step 0, Step 0, Step 0, Step 0, Step 0] \<noteq> []" by simp
  with c p have f: "err (grp s1) \<noteq> None" by simp
  from b p have g: "exec (Step 1) s1 \<noteq> Blocked" by simp
  from h p a e f g show ?thesis by blast
qed

section \<open>Collect keeps every error\<close>




section \<open>FailFast keeps the first error\<close>

text \<open>
  Claim C2. Under \<open>FailFast\<close>, when a task with the error \<open>e\<close> holds the lock and the
  \<open>errOnce\<close> latch has not fired, nothing has been recorded yet; its step records \<open>e\<close>,
  fires the latch and cancels the derived context, and from then on, whatever happens
  (other tasks handling their errors among it), the error slot stays \<open>e\<close> and the latch
  stays fired; every \<open>Wait\<close> that returns afterwards returns exactly \<open>e\<close>.
\<close>

theorem FailFast_first_error:
  assumes "New parent FailFast (map WithLimit ks) = Inr s0" and "run evs1 s0 = Next s1"
    and "pc_at s1 i = Some (Critical e)" and "\<not> errOnce (grp s1)"
    and "run (Step i # evs2) s1 = Next s2"
  shows "err (grp s1) = None \<and> err (grp s2) = Some e \<and> errOnce (grp s2) \<and> cancelled (ctx s2)
    \<and> (\<forall>w r. pc_at s2 w = Some (Waited r) \<longrightarrow> r = Some e \<or> pc_at s1 w = Some (Waited r))"
proof -
  let ?t = "goto i Unlock (record_error e s1)"
  let ?R = "\<lambda>t. failureMode (grp t) = FailFast \<and> errOnce (grp t) \<and> err (grp t) = Some e"
  let ?Q = "\<lambda>x. x = Some e"
  from run_fixed_fields [OF assms(2)] New_WithLimit(3,8) [OF assms(1)]
  have g: "cancel (grp s1)" "failureMode (grp s1) = FailFast" by simp_all
  from assms(3) have "exec (Step i) s1 = Next ?t" by simp
  with assms(5) have r2: "run evs2 ?t = Next s2" by simp
  from g assms(4) have R: "?R ?t" and c: "cancelled (ctx ?t)"
    by (simp_all add: record_error_err)
  from run_errors_inv [OF assms(1,2)] assms(4) have n: "err (grp s1) = None" by blast
  have w: "?R s2 \<and> (\<forall>v x. pc_at s2 v = Some (Waited x) \<longrightarrow> ?Q x \<or> pc_at ?t v = Some (Waited x))"
  proof (rule Waited_after [where R = ?R and Q = ?Q])
    show "run evs2 ?t = Next s2" by (rule r2)
    show "?R ?t" by (rule R)
    show "?R u'" if "?R u" "exec ev u = Next u'" for ev u u'
      using that exec_FailFast_latch(2) [OF that(2)] exec_fixed_fields [OF that(2)] by simp
    show "?Q (err (grp u))" if "?R u" for u
      using that by simp
  qed
  have "r = Some e \<or> pc_at s1 v = Some (Waited r)" if "pc_at s2 v = Some (Waited r)" for v r
  proof -
    from w that have "r = Some e \<or> pc_at ?t v = Some (Waited r)" by blast
    then show ?thesis by (auto simp: pc_at_goto split: if_splits)
  qed
  with n w run_cancelled_mono [OF r2 c] show ?thesis by blast
qed

theorem FailFast_first_error_witness:
  "\<exists>s0 s1 s2. New False FailFast (map WithLimit [2]) = Inr s0
     \<and> run [CallGo, Step 0, Step 0, Step 0, CallGo, Step 1, Step 1, Step 1, CallWait,
             Return 0 (Some (ErrorString 1)), Return 1 (Some (ErrorString 2)),
             Step 1, Step 1] s0 = Next s1
     \<and> pc_at s1 1 = Some (Critical (ErrorString 2)) \<and> \<not> errOnce (grp s1)
     \<and> run (Step 1 # [Step 0, Step 1, Step 0, Step 0, Step 0, Step 0, Step 0, Step 1, Step 1,
                      Step 2, Step 2, Step 2]) s1 = Next s2
     \<and> pc_at s2 0 = Some Exited \<and> pc_at s2 1 = Some Exited
     \<and> pc_at s2 2 = Some (Waited (Some (ErrorString 2)))
     \<and> err (grp s1) = None \<and> err (grp s2) = Some (ErrorString 2) \<and> errOnce (grp s2)
     \<and> cancelled (ctx s2)"
proof -
  have "\<exists>s0 s1 s2. New False FailFast (map WithLimit [2]) = Inr s0
     \<and> run [CallGo, Step 0, Step 0, Step 0, CallGo, Step 1, Step 1, Step 1, CallWait,
             Return 0 (Some (ErrorString 1)), Return 1 (Some (ErrorString 2)),
             Step 1, Step 1] s0 = Next s1
     \<and> pc_at s1 1 = Some (Critical (ErrorString 2)) \<and> \<not> errOnce (grp s1)
     \<and> run (Step 1 # [Step 0, Step 1, Step 0, Step 0, Step 0, Step 0, Step 0, Step 1, Step 1,
                      Step 2, Step 2, Step 2]) s1 = Next s2
     \<and> pc_at s2 0 = Some Exited \<and> pc_at s2 1 = Some Exited
     \<and> pc_at s2 2 = Some (Waited (Some (ErrorString 2)))"
    by (simp add: New_def WithLimit_def pc_at_def record_error_def Cancel_def)
  then obtain s0 s1 s2 where h: "New False FailFast (map WithLimit [2]) = Inr s0"
    "run [CallGo, Step 0, Step 0, Step 0, CallGo, Step 1, Step 1, Step 1, CallWait,
             Return 0 (Some (ErrorString 1)), Return 1 (Some (ErrorString 2)),
             Step 1, Step 1] s0 = Next s1"
    "pc_at s1 1 = Some (Critical (ErrorString 2))" "\<not> errOnce (grp s1)"
    "run (Step 1 # [Step 0, Step 1, Step 0, Step 0, Step 0, Step 0, Step 0, Step 1, Step 1,
                      Step 2, Step 2, Step 2]) s1 = Next s2"
    and p: "pc_at s2 0 = Some Exited" "pc_at s2 1 = Some Exited"
      "pc_at s2 2 = Some (Waited (Some (ErrorString 2)))"
    by blast
  from FailFast_first_error [OF h] h p show ?thesis by blast
qed

end
